theory Spec2Isabelle
  imports Main
begin

section \<open>Go values: bytes, panics, slices\<close>

text \<open>
  A Go \<open>byte\<close> is an 8-bit value and a Go \<open>string\<close> a sequence of bytes: they are
  \<open>char\<close> and \<open>string\<close> here. Go's \<open>int\<close> is 64 bits wide; no length or index of
  this program comes near that bound, so \<open>int\<close> stands for it. A run-time panic
  (an index or a slice bound out of range) is the \<open>Inl\<close> branch of every result.
\<close>

type_synonym byte = char

datatype panic = IndexOutOfRange | SliceBoundsOutOfRange

definition andThen :: "panic + 'a \<Rightarrow> ('a \<Rightarrow> panic + 'b) \<Rightarrow> panic + 'b" where
  "andThen m f = (case m of Inl e \<Rightarrow> Inl e | Inr v \<Rightarrow> f v)"

text \<open>\<open>xs[i]\<close> read and written, \<open>xs[lo:]\<close> and \<open>xs[lo:hi]\<close>. Every slice of this
  program has its capacity equal to its length.\<close>

definition at :: "'a list \<Rightarrow> int \<Rightarrow> panic + 'a" where
  "at xs i = (if 0 \<le> i \<and> i < int (length xs) then Inr (xs ! nat i) else Inl IndexOutOfRange)"

definition store :: "'a list \<Rightarrow> int \<Rightarrow> 'a \<Rightarrow> panic + 'a list" where
  "store xs i v =
     (if 0 \<le> i \<and> i < int (length xs) then Inr (xs[nat i := v]) else Inl IndexOutOfRange)"

definition sliceFrom :: "'a list \<Rightarrow> int \<Rightarrow> panic + 'a list" where
  "sliceFrom xs lo =
     (if 0 \<le> lo \<and> lo \<le> int (length xs) then Inr (drop (nat lo) xs)
      else Inl SliceBoundsOutOfRange)"

definition slice :: "'a list \<Rightarrow> int \<Rightarrow> int \<Rightarrow> panic + 'a list" where
  "slice xs lo hi =
     (if 0 \<le> lo \<and> lo \<le> hi \<and> hi \<le> int (length xs)
      then Inr (take (nat (hi - lo)) (drop (nat lo) xs))
      else Inl SliceBoundsOutOfRange)"

text \<open>The builtin \<open>copy(dst, src)\<close> moves \<open>min(len(dst), len(src))\<close> elements and
  leaves the rest of \<open>dst\<close>; the value is the new content of \<open>dst\<close>.\<close>

definition copy :: "'a list \<Rightarrow> 'a list \<Rightarrow> 'a list" where
  "copy dst src = take (length dst) src @ drop (length src) dst"

text \<open>\<open>copy(xs[a:], xs[b:])\<close> on one array: the source is read as it was before the
  call (overlap is allowed), and the elements before \<open>a\<close> stay.\<close>

definition copyWithin :: "'a list \<Rightarrow> int \<Rightarrow> int \<Rightarrow> panic + 'a list" where
  "copyWithin xs a b =
     andThen (sliceFrom xs a) (\<lambda>dst.
     andThen (sliceFrom xs b) (\<lambda>src.
       Inr (take (nat a) xs @ copy dst src)))"

section \<open>The edit buffer\<close>

text \<open>The struct \<open>lineBuf\<close>. A nil \<open>history\<close> slice is \<open>None\<close>.\<close>

record lineBuf =
  length_lb :: int
  cursor :: int
  buf :: "byte list"
  yanked :: string
  yanking :: bool
  history :: "string list option"
  historyIndex :: int

definition SPACE :: byte where "SPACE = CHR '' ''"

text \<open>\<open>make([]byte, capacity)\<close> panics on a negative capacity; the program calls
  \<open>newLineBuf(1024)\<close> only, so the capacity is a natural number here.\<close>

definition newLineBuf :: "nat \<Rightarrow> lineBuf" where
  "newLineBuf capacity =
     \<lparr>length_lb = 0, cursor = 0, buf = replicate capacity (CHR 0x00), yanked = [],
      yanking = False, history = None, historyIndex = - 1\<rparr>"

definition IsEmpty :: "lineBuf \<Rightarrow> bool" where
  "IsEmpty lb = (length_lb lb = 0)"

definition Clear :: "lineBuf \<Rightarrow> lineBuf" where
  "Clear lb = lb\<lparr>length_lb := 0, cursor := 0, yanking := False\<rparr>"

definition String :: "lineBuf \<Rightarrow> panic + string" where
  "String lb = slice (buf lb) 0 (length_lb lb)"

definition Insert :: "lineBuf \<Rightarrow> byte \<Rightarrow> panic + lineBuf" where
  "Insert lb ch =
     (let n = int (length (buf lb));
          b0 = (if length_lb lb = n
                then copy (replicate (nat (n + 10)) (CHR 0x00)) (buf lb)
                else buf lb)
      in andThen
           (if cursor lb = length_lb lb then store b0 (cursor lb) ch
            else andThen (copyWithin b0 (cursor lb + 1) (cursor lb))
                   (\<lambda>b. store b (cursor lb) ch))
           (\<lambda>b. Inr (lb\<lparr>yanking := False, buf := b, cursor := cursor lb + 1,
                      length_lb := length_lb lb + 1\<rparr>)))"

fun InsertBytes :: "lineBuf \<Rightarrow> byte list \<Rightarrow> panic + lineBuf" where
  "InsertBytes lb [] = Inr lb"
| "InsertBytes lb (ch # chs) = andThen (Insert lb ch) (\<lambda>lb'. InsertBytes lb' chs)"

definition Delete :: "lineBuf \<Rightarrow> panic + (bool \<times> lineBuf)" where
  "Delete lb0 =
     (let lb = lb0\<lparr>yanking := False\<rparr>
      in if cursor lb < length_lb lb
         then andThen (copyWithin (buf lb) (cursor lb) (cursor lb + 1))
                (\<lambda>b. Inr (True, lb\<lparr>buf := b, length_lb := length_lb lb - 1\<rparr>))
         else Inr (False, lb))"

definition KillToEnd :: "lineBuf \<Rightarrow> panic + (int \<times> lineBuf)" where
  "KillToEnd lb =
     (let n = length_lb lb - cursor lb
      in andThen (slice (buf lb) (cursor lb) (length_lb lb)) (\<lambda>span.
           Inr (n, lb\<lparr>yanked := (if yanking lb then yanked lb @ span else span),
                      length_lb := cursor lb, yanking := False\<rparr>)))"

definition DeleteRange :: "lineBuf \<Rightarrow> int \<Rightarrow> int \<Rightarrow> panic + (int \<times> lineBuf)" where
  "DeleteRange lb begin0 end0 =
     (if \<not> begin0 < 0 \<and> begin0 > length_lb lb then Inr (0, lb)
      else let begin' = (if begin0 < 0 then 0 else begin0)
      in if \<not> end0 > length_lb lb \<and> end0 < 0 then Inr (0, lb)
      else let end' = (if end0 > length_lb lb then length_lb lb else end0);
               n = end' - begin'
      in if n > 0
         then andThen (slice (buf lb) begin' end') (\<lambda>span.
              andThen (copyWithin (buf lb) begin' end') (\<lambda>b.
                Inr (n, lb\<lparr>yanked := (if yanking lb then yanked lb @ span else span),
                           buf := b, length_lb := length_lb lb - n, cursor := begin'\<rparr>)))
         else Inr (n, lb))"

text \<open>The scans of the word operations, one function per \<open>for\<close> statement.
  \<open>skipSpacesBack\<close> is \<open>for ; i > 0; i-- { if lb.buf[i] != SPACE { break } }\<close> and
  yields the final \<open>i\<close>; \<open>findSpaceBack\<close> is
  \<open>for ; i > 0; i-- { if lb.buf[i] == SPACE { return ... } }\<close> and yields the \<open>i\<close> of
  the early return, or \<open>None\<close> when the scan runs out. The forward scans take the
  bound \<open>lb.length\<close>.\<close>

function skipSpacesBack :: "byte list \<Rightarrow> int \<Rightarrow> panic + int" where
  "skipSpacesBack b i =
     (if i > 0
      then (case at b i of
              Inl e \<Rightarrow> Inl e
            | Inr c \<Rightarrow> if c \<noteq> SPACE then Inr i else skipSpacesBack b (i - 1))
      else Inr i)"
  by pat_completeness auto
termination
  by (relation "measure (\<lambda>(b, i). nat i)") auto

function findSpaceBack :: "byte list \<Rightarrow> int \<Rightarrow> panic + int option" where
  "findSpaceBack b i =
     (if i > 0
      then (case at b i of
              Inl e \<Rightarrow> Inl e
            | Inr c \<Rightarrow> if c = SPACE then Inr (Some i) else findSpaceBack b (i - 1))
      else Inr None)"
  by pat_completeness auto
termination
  by (relation "measure (\<lambda>(b, i). nat i)") auto

function skipSpacesFwd :: "byte list \<Rightarrow> int \<Rightarrow> int \<Rightarrow> panic + int" where
  "skipSpacesFwd b len i =
     (if i < len
      then (case at b i of
              Inl e \<Rightarrow> Inl e
            | Inr c \<Rightarrow> if c \<noteq> SPACE then Inr i else skipSpacesFwd b len (i + 1))
      else Inr i)"
  by pat_completeness auto
termination
  by (relation "measure (\<lambda>(b, len, i). nat (len - i))") auto

function findSpaceFwd :: "byte list \<Rightarrow> int \<Rightarrow> int \<Rightarrow> panic + int option" where
  "findSpaceFwd b len i =
     (if i < len
      then (case at b i of
              Inl e \<Rightarrow> Inl e
            | Inr c \<Rightarrow> if c = SPACE then Inr (Some i) else findSpaceFwd b len (i + 1))
      else Inr None)"
  by pat_completeness auto
termination
  by (relation "measure (\<lambda>(b, len, i). nat (len - i))") auto

text \<open>The scans are unfolded one step at a time in the proofs.\<close>

declare skipSpacesBack.simps [simp del] findSpaceBack.simps [simp del]
  skipSpacesFwd.simps [simp del] findSpaceFwd.simps [simp del]

definition WordBackspace :: "lineBuf \<Rightarrow> panic + (int \<times> lineBuf)" where
  "WordBackspace lb =
     (let i0 = (if cursor lb > 0 then cursor lb - 1 else cursor lb)
      in andThen (skipSpacesBack (buf lb) i0) (\<lambda>i.
         andThen (at (buf lb) i) (\<lambda>c.
           if c \<noteq> SPACE
           then andThen (findSpaceBack (buf lb) i) (\<lambda>r.
                  case r of
                    Some j \<Rightarrow> DeleteRange lb (j + 1) (cursor lb)
                  | None \<Rightarrow> DeleteRange lb 0 (cursor lb))
           else DeleteRange lb 0 (cursor lb))))"

definition WordDelete :: "lineBuf \<Rightarrow> panic + (int \<times> lineBuf)" where
  "WordDelete lb =
     andThen (skipSpacesFwd (buf lb) (length_lb lb) (cursor lb - 1)) (\<lambda>i.
     andThen (findSpaceFwd (buf lb) (length_lb lb) i) (\<lambda>r.
       case r of
         Some j \<Rightarrow> DeleteRange lb (cursor lb) j
       | None \<Rightarrow> Inr (0, lb)))"

definition WordForward :: "lineBuf \<Rightarrow> panic + lineBuf" where
  "WordForward lb =
     andThen (skipSpacesFwd (buf lb) (length_lb lb) (cursor lb)) (\<lambda>i.
     andThen (findSpaceFwd (buf lb) (length_lb lb) i) (\<lambda>r.
       case r of
         Some j \<Rightarrow> Inr (lb\<lparr>cursor := j\<rparr>)
       | None \<Rightarrow> Inr (lb\<lparr>cursor := length_lb lb\<rparr>)))"

definition WordBackward :: "lineBuf \<Rightarrow> panic + lineBuf" where
  "WordBackward lb =
     (let i0 = (if cursor lb > 0 then cursor lb - 1 else cursor lb)
      in andThen (skipSpacesBack (buf lb) i0) (\<lambda>i.
         andThen (at (buf lb) i) (\<lambda>c.
           if c \<noteq> SPACE
           then andThen (findSpaceBack (buf lb) i) (\<lambda>r.
                  case r of
                    Some j \<Rightarrow> Inr (lb\<lparr>cursor := j + 1\<rparr>)
                  | None \<Rightarrow> Inr (lb\<lparr>cursor := 0\<rparr>))
           else Inr (lb\<lparr>cursor := 0\<rparr>))))"

definition Yank :: "lineBuf \<Rightarrow> panic + (int \<times> lineBuf)" where
  "Yank lb0 =
     (let lb = lb0\<lparr>yanking := True\<rparr>
      in andThen (InsertBytes lb (yanked lb)) (\<lambda>lb'. Inr (int (length (yanked lb')), lb')))"

definition Backward :: "lineBuf \<Rightarrow> bool \<times> lineBuf" where
  "Backward lb0 =
     (let lb = lb0\<lparr>yanking := False\<rparr>
      in if cursor lb > 0 then (True, lb\<lparr>cursor := cursor lb - 1\<rparr>) else (False, lb))"

definition Forward :: "lineBuf \<Rightarrow> bool \<times> lineBuf" where
  "Forward lb0 =
     (let lb = lb0\<lparr>yanking := False\<rparr>
      in if cursor lb < length_lb lb then (True, lb\<lparr>cursor := cursor lb + 1\<rparr>)
         else (False, lb))"

definition Begin :: "lineBuf \<Rightarrow> lineBuf" where
  "Begin lb = lb\<lparr>yanking := False, cursor := 0\<rparr>"

definition End :: "lineBuf \<Rightarrow> lineBuf" where
  "End lb = lb\<lparr>yanking := False, cursor := length_lb lb\<rparr>"

text \<open>\<open>append\<close> on a nil slice allocates: the history is not nil afterwards.\<close>

definition AddToHistory :: "lineBuf \<Rightarrow> string \<Rightarrow> lineBuf" where
  "AddToHistory lb line =
     lb\<lparr>history := Some ((case history lb of None \<Rightarrow> [] | Some h \<Rightarrow> h) @ [line]),
        historyIndex := - 1\<rparr>"

definition PrevInHistory :: "lineBuf \<Rightarrow> panic + (int \<times> lineBuf)" where
  "PrevInHistory lb =
     (let n = length_lb lb
      in case history lb of
           None \<Rightarrow> Inr (n, lb)
         | Some h \<Rightarrow>
             let lb1 = (if historyIndex lb < 0 then lb\<lparr>historyIndex := int (length h) - 1\<rparr>
                        else lb\<lparr>historyIndex := historyIndex lb - 1\<rparr>)
             in if historyIndex lb1 \<ge> 0
                then andThen (at h (historyIndex lb1)) (\<lambda>line.
                     andThen (InsertBytes (lb1\<lparr>length_lb := 0, cursor := 0\<rparr>) line) (\<lambda>lb2.
                       Inr (if length_lb lb2 > n then length_lb lb2 else n, lb2)))
                else Inr (n, lb1\<lparr>historyIndex := 0\<rparr>))"

definition NextInHistory :: "lineBuf \<Rightarrow> panic + (int \<times> lineBuf)" where
  "NextInHistory lb =
     (let n = length_lb lb
      in case history lb of
           None \<Rightarrow> Inr (n, lb)
         | Some h \<Rightarrow>
             if historyIndex lb \<ge> 0
             then let lb1 = lb\<lparr>historyIndex := historyIndex lb + 1\<rparr>
                  in if historyIndex lb1 < int (length h)
                     then andThen (at h (historyIndex lb1)) (\<lambda>line.
                          andThen (InsertBytes (lb1\<lparr>length_lb := 0, cursor := 0\<rparr>) line) (\<lambda>lb2.
                            Inr (if length_lb lb2 > n then length_lb lb2 else n, lb2)))
                     else Inr (n, lb1\<lparr>historyIndex := historyIndex lb1 - 1\<rparr>)
             else Inr (n, lb))"

text \<open>The invariant of the data model: \<open>0 \<le> cursor \<le> length \<le> capacity\<close>, the
  capacity being \<open>len(lb.buf)\<close>.\<close>

definition lb_inv :: "lineBuf \<Rightarrow> bool" where
  "lb_inv lb = (0 \<le> cursor lb \<and> cursor lb \<le> length_lb lb \<and> length_lb lb \<le> int (length (buf lb)))"


text \<open>The valid prefix \<open>buf[0:length]\<close> as a plain list: what \<open>String\<close> returns
  whenever it returns.\<close>

definition content :: "lineBuf \<Rightarrow> string" where
  "content lb = take (nat (length_lb lb)) (buf lb)"

text \<open>The operations of the edit buffer as values, and the state each leaves (its
  return value dropped), to speak of all of them at once.\<close>

datatype edit_op =
  OpInsert byte | OpInsertBytes "byte list" | OpDelete | OpKillToEnd | OpDeleteRange int int
  | OpWordBackspace | OpWordDelete | OpWordForward | OpWordBackward | OpYank
  | OpBackward | OpForward | OpBegin | OpEnd | OpClear
  | OpPrevInHistory | OpNextInHistory | OpAddToHistory string

fun apply_op :: "edit_op \<Rightarrow> lineBuf \<Rightarrow> panic + lineBuf" where
  "apply_op (OpInsert ch) lb = Insert lb ch"
| "apply_op (OpInsertBytes chs) lb = InsertBytes lb chs"
| "apply_op OpDelete lb = andThen (Delete lb) (\<lambda>r. Inr (snd r))"
| "apply_op OpKillToEnd lb = andThen (KillToEnd lb) (\<lambda>r. Inr (snd r))"
| "apply_op (OpDeleteRange b e) lb = andThen (DeleteRange lb b e) (\<lambda>r. Inr (snd r))"
| "apply_op OpWordBackspace lb = andThen (WordBackspace lb) (\<lambda>r. Inr (snd r))"
| "apply_op OpWordDelete lb = andThen (WordDelete lb) (\<lambda>r. Inr (snd r))"
| "apply_op OpWordForward lb = WordForward lb"
| "apply_op OpWordBackward lb = WordBackward lb"
| "apply_op OpYank lb = andThen (Yank lb) (\<lambda>r. Inr (snd r))"
| "apply_op OpBackward lb = Inr (snd (Backward lb))"
| "apply_op OpForward lb = Inr (snd (Forward lb))"
| "apply_op OpBegin lb = Inr (Begin lb)"
| "apply_op OpEnd lb = Inr (End lb)"
| "apply_op OpClear lb = Inr (Clear lb)"
| "apply_op OpPrevInHistory lb = andThen (PrevInHistory lb) (\<lambda>r. Inr (snd r))"
| "apply_op OpNextInHistory lb = andThen (NextInHistory lb) (\<lambda>r. Inr (snd r))"
| "apply_op (OpAddToHistory line) lb = Inr (AddToHistory lb line)"

text \<open>A sequence of operations, run in order until one panics.\<close>

fun run_ops :: "edit_op list \<Rightarrow> lineBuf \<Rightarrow> panic + lineBuf" where
  "run_ops [] lb = Inr lb"
| "run_ops (op # ops) lb = andThen (apply_op op lb) (run_ops ops)"

text \<open>The text and the history cursor after each operation of a sequence.\<close>

fun trace_ops :: "edit_op list \<Rightarrow> lineBuf \<Rightarrow> panic + (string \<times> int) list" where
  "trace_ops [] lb = Inr []"
| "trace_ops (op # ops) lb =
     andThen (apply_op op lb) (\<lambda>lb'.
     andThen (String lb') (\<lambda>s.
     andThen (trace_ops ops lb') (\<lambda>t. Inr ((s, historyIndex lb') # t))))"

text \<open>The states in which an operation reads outside the storage or the history:
  \<open>WordDelete\<close> begins its scan at \<open>cursor - 1\<close>; \<open>WordBackspace\<close> and \<open>WordBackward\<close>
  read \<open>buf[0]\<close> even in a buffer of capacity 0; \<open>PrevInHistory\<close> reads
  \<open>history[historyIndex - 1]\<close>.\<close>

fun panics :: "edit_op \<Rightarrow> lineBuf \<Rightarrow> bool" where
  "panics OpWordDelete lb = (cursor lb = 0)"
| "panics OpWordBackspace lb = (buf lb = [])"
| "panics OpWordBackward lb = (buf lb = [])"
| "panics OpPrevInHistory lb =
     (case history lb of None \<Rightarrow> False | Some h \<Rightarrow> historyIndex lb > int (length h))"
| "panics _ lb = False"

section \<open>Key codes and the renderer\<close>

definition CTRL_A :: byte where "CTRL_A = CHR 0x01"
definition CTRL_B :: byte where "CTRL_B = CHR 0x02"
definition CTRL_C :: byte where "CTRL_C = CHR 0x03"
definition CTRL_D :: byte where "CTRL_D = CHR 0x04"
definition CTRL_E :: byte where "CTRL_E = CHR 0x05"
definition CTRL_F :: byte where "CTRL_F = CHR 0x06"
definition BEEP :: byte where "BEEP = CHR 0x07"
definition TAB :: byte where "TAB = CHR 0x09"
definition NEWLINE :: byte where "NEWLINE = CHR 0x0A"
definition CTRL_K :: byte where "CTRL_K = CHR 0x0B"
definition CTRL_L :: byte where "CTRL_L = CHR 0x0C"
definition RETURN :: byte where "RETURN = CHR 0x0D"
definition CTRL_N :: byte where "CTRL_N = CHR 0x0E"
definition CTRL_P :: byte where "CTRL_P = CHR 0x10"
definition CTRL_Y :: byte where "CTRL_Y = CHR 0x19"
definition ESCAPE :: byte where "ESCAPE = CHR 0x1B"
definition DELETE :: byte where "DELETE = CHR 0x7F"
definition OPEN_PAREN :: byte where "OPEN_PAREN = CHR ''(''"
definition CLOSE_PAREN :: byte where "CLOSE_PAREN = CHR '')''"
definition OPEN_BRACKET :: byte where "OPEN_BRACKET = CHR ''[''"
definition CLOSE_BRACKET :: byte where "CLOSE_BRACKET = CHR '']''"
definition OPEN_BRACE :: byte where "OPEN_BRACE = CHR ''{''"
definition CLOSE_BRACE :: byte where "CLOSE_BRACE = CHR ''}''"

definition matching :: "byte \<Rightarrow> byte" where
  "matching ch =
     (if ch = CLOSE_PAREN then OPEN_PAREN
      else if ch = CLOSE_BRACKET then OPEN_BRACKET
      else if ch = CLOSE_BRACE then OPEN_BRACE
      else CHR 0x00)"

text \<open>Everything the program writes goes to the terminal, and it ignores the write
  errors: an output function is the list of bytes it writes. \<open>cursorBackward\<close> and
  \<open>cursorForward\<close> write one escape sequence each.\<close>

definition cursorBackward :: "byte list" where
  "cursorBackward = [CHR 0x1B, CHR ''['', CHR ''1'', CHR ''D'']"

definition cursorForward :: "byte list" where
  "cursorForward = [CHR 0x1B, CHR ''['', CHR ''1'', CHR ''C'']"

text \<open>\<open>drawline\<close>: carriage return, prompt, buffer text, \<open>extra\<close> blanks (the loop
  \<open>for i := 0; i < extra; i++\<close> runs \<open>nat extra\<close> times), then one \<open>cursorBackward\<close>
  for each step from \<open>length + extra\<close> down to \<open>cursor\<close>. It only reads the buffer.\<close>

definition drawline :: "string \<Rightarrow> lineBuf \<Rightarrow> int \<Rightarrow> panic + byte list" where
  "drawline p lb extra =
     andThen (String lb) (\<lambda>s.
       Inr ([CHR 0x0D] @ p @ s @ replicate (nat extra) SPACE
            @ concat (replicate (nat (length_lb lb + extra - cursor lb)) cursorBackward)))"

text \<open>\<open>highlightMatch\<close>: the loop \<open>for i > 0 { i--; ... }\<close> with its counter, and the
  two assignments to \<open>lb.cursor\<close> around the first redraw as the code makes them. The
  pause between the two redraws (\<open>time.Sleep\<close>) changes no state and writes nothing.
  The result is the buffer after the call and the bytes written.\<close>

function highlightLoop ::
  "lineBuf \<Rightarrow> string \<Rightarrow> byte \<Rightarrow> byte \<Rightarrow> int \<Rightarrow> int \<Rightarrow> panic + (lineBuf \<times> byte list)" where
  "highlightLoop lb p chOpen chClose i count =
     (if i > 0
      then (case at (buf lb) (i - 1) of
              Inl e \<Rightarrow> Inl e
            | Inr c \<Rightarrow>
                if c = chOpen
                then (if count - 1 = 0
                      then (let tmp = cursor lb;
                                lb1 = lb\<lparr>cursor := i - 1\<rparr>
                            in andThen (drawline p lb1 0) (\<lambda>o1.
                                 let lb2 = lb1\<lparr>cursor := tmp\<rparr>
                                 in andThen (drawline p lb2 0) (\<lambda>o2. Inr (lb2, o1 @ o2))))
                      else highlightLoop lb p chOpen chClose (i - 1) (count - 1))
                else if c = chClose
                then highlightLoop lb p chOpen chClose (i - 1) (count + 1)
                else highlightLoop lb p chOpen chClose (i - 1) count)
      else Inr (lb, [BEEP]))"
  by pat_completeness auto
termination
  by (relation "measure (\<lambda>(lb, p, chOpen, chClose, i, count). nat i)") auto

declare highlightLoop.simps [simp del]

definition highlightMatch ::
  "lineBuf \<Rightarrow> string \<Rightarrow> byte \<Rightarrow> byte \<Rightarrow> panic + (lineBuf \<times> byte list)" where
  "highlightMatch lb p chOpen chClose = highlightLoop lb p chOpen chClose (cursor lb - 1) 1"

text \<open>
  What "a matching opener exists" means for the closer just before the cursor, in the
  words of the specification: closers raise the depth, openers lower it, and the
  opener at \<open>j\<close> matches when the depth comes back to zero there, that is, when the
  bytes from \<open>j\<close> up to the closer hold exactly one opener more than closers.
  \<open>opens\<close> and \<open>closes\<close> count the openers and the closers at the positions
  \<open>j, ..., n - 1\<close>.
\<close>

definition opens :: "byte list \<Rightarrow> byte \<Rightarrow> nat \<Rightarrow> nat \<Rightarrow> nat" where
  "opens b chOpen j n = length (filter (\<lambda>x. x = chOpen) (drop j (take n b)))"

definition closes :: "byte list \<Rightarrow> byte \<Rightarrow> byte \<Rightarrow> nat \<Rightarrow> nat \<Rightarrow> nat" where
  "closes b chOpen chClose j n =
     length (filter (\<lambda>x. x \<noteq> chOpen \<and> x = chClose) (drop j (take n b)))"

definition spec_matching_opener_exists :: "lineBuf \<Rightarrow> byte \<Rightarrow> byte \<Rightarrow> bool" where
  "spec_matching_opener_exists lb chOpen chClose =
     (let n = nat (cursor lb - 1)
      in list_ex (\<lambda>j. opens (buf lb) chOpen j n = 1 + closes (buf lb) chOpen chClose j n)
           [0..<n])"

section \<open>The handler, the terminal input and the loop\<close>

text \<open>
  A Go \<open>error\<close> value is its message. The handler is an interface with state of its
  own: each method takes the handler's state and returns the new one. \<open>Eval\<close> returns
  \<open>(result, more, err)\<close> (\<open>more'\<close> below); the program only prints \<open>result\<close>, so the result is the
  text \<open>fmt.Println\<close> prints for it. A nil \<open>[]string\<close> is \<open>None\<close>.
\<close>

datatype go_error = GoError string

fun Error :: "go_error \<Rightarrow> string" where
  "Error (GoError msg) = msg"

record 'h ReplHandler =
  Eval :: "'h \<Rightarrow> string \<Rightarrow> (string \<times> bool \<times> go_error option) \<times> 'h"
  Complete :: "'h \<Rightarrow> string \<Rightarrow> (string \<times> string list option) \<times> 'h"
  Reset :: "'h \<Rightarrow> 'h"
  Prompt :: "'h \<Rightarrow> string \<times> 'h"
  Start :: "'h \<Rightarrow> string list option \<times> 'h"
  Stop :: "'h \<Rightarrow> string list option \<Rightarrow> 'h"

text \<open>The calls made to the handler are logged in order, with their arguments.\<close>

datatype call =
  CallStart | CallStop "string list option" | CallEval string | CallComplete string
  | CallReset | CallPrompt

text \<open>The variables of \<open>repl\<close> (\<open>buf\<close>, \<open>prompt\<close>, \<open>meta\<close>, \<open>lastChar\<close>,
  \<open>options\<close>), the handler's state, the bytes written so far and the call log.\<close>

record 'h session =
  s_buf :: lineBuf
  s_prompt :: string
  s_meta :: bool
  s_lastChar :: byte
  s_options :: "string list option"
  s_handler :: 'h
  s_out :: "byte list"
  s_calls :: "call list"

text \<open>One \<open>syscall.Read\<close> of one byte: a byte, nothing (\<open>n == 0\<close> with a nil error),
  or an error. \<open>getChar\<close> returns \<open>(0, err)\<close> in the last two cases.\<close>

datatype read = ReadByte byte | ReadNothing | ReadError go_error

fun getChar :: "read \<Rightarrow> byte \<times> go_error option" where
  "getChar (ReadByte b) = (b, None)"
| "getChar ReadNothing = (CHR 0x00, None)"
| "getChar (ReadError e) = (CHR 0x00, Some e)"

datatype 'h control = Continue "'h session" | Return "go_error option" "'h session"

definition putString :: "'h session \<Rightarrow> string \<Rightarrow> 'h session" where
  "putString s str = s\<lparr>s_out := s_out s @ str\<rparr>"

definition putChar :: "'h session \<Rightarrow> byte \<Rightarrow> 'h session" where
  "putChar s b = s\<lparr>s_out := s_out s @ [b]\<rparr>"

definition redraw :: "'h session \<Rightarrow> int \<Rightarrow> panic + 'h session" where
  "redraw s extra =
     andThen (drawline (s_prompt s) (s_buf s) extra) (\<lambda>out. Inr (putString s out))"

definition callStop :: "'h ReplHandler \<Rightarrow> 'h session \<Rightarrow> 'h session" where
  "callStop h s =
     s\<lparr>s_handler := Stop h (s_handler s) (history (s_buf s)),
       s_calls := s_calls s @ [CallStop (history (s_buf s))]\<rparr>"

text \<open>\<open>prompt = handler.Prompt(); putString(prompt)\<close>\<close>

definition newPrompt :: "'h ReplHandler \<Rightarrow> 'h session \<Rightarrow> 'h session" where
  "newPrompt h s =
     (let (p, hs) = Prompt h (s_handler s)
      in putString (s\<lparr>s_prompt := p, s_handler := hs, s_calls := s_calls s @ [CallPrompt]\<rparr>) p)"

text \<open>The \<open>switch\<close> taken after ESCAPE.\<close>

definition metaKey :: "'h session \<Rightarrow> byte \<Rightarrow> panic + 'h control" where
  "metaKey s0 ch =
     (let s = s0\<lparr>s_meta := False\<rparr>
      in if ch = DELETE
         then andThen (WordBackspace (s_buf s)) (\<lambda>(n, lb).
              andThen (redraw (s\<lparr>s_buf := lb\<rparr>) n) (\<lambda>s'. Inr (Continue s')))
         else if ch = CHR ''d''
         then andThen (WordDelete (s_buf s)) (\<lambda>(n, lb).
              andThen (redraw (s\<lparr>s_buf := lb\<rparr>) n) (\<lambda>s'. Inr (Continue s')))
         else if ch = CHR ''b''
         then andThen (WordBackward (s_buf s)) (\<lambda>lb.
              andThen (redraw (s\<lparr>s_buf := lb\<rparr>) 0) (\<lambda>s'. Inr (Continue s')))
         else if ch = CHR ''f''
         then andThen (WordForward (s_buf s)) (\<lambda>lb.
              andThen (redraw (s\<lparr>s_buf := lb\<rparr>) 0) (\<lambda>s'. Inr (Continue s')))
         else Inr (Continue (putChar s BEEP)))"

text \<open>The case \<open>TAB\<close>: a repeated Tab lists the pending options; a first Tab asks the
  handler to complete \<open>buf.buf[0:buf.cursor]\<close>.\<close>

definition tabKey :: "'h ReplHandler \<Rightarrow> 'h session \<Rightarrow> panic + 'h control" where
  "tabKey h s =
     (if s_lastChar s = TAB
      then andThen
             (case s_options s of
                None \<Rightarrow> Inr s
              | Some opts \<Rightarrow>
                  redraw (putChar (fold (\<lambda>opt t. putString (putChar t NEWLINE) opt) opts s)
                            NEWLINE) 0)
             (\<lambda>s'. Inr (Continue (putChar s' BEEP)))
      else andThen (slice (buf (s_buf s)) 0 (cursor (s_buf s))) (\<lambda>expr.
           let ((addendum, opt), hs) = Complete h (s_handler s) expr;
               s1 = s\<lparr>s_handler := hs, s_calls := s_calls s @ [CallComplete expr]\<rparr>
           in andThen (if length addendum > 0 then InsertBytes (s_buf s1) addendum
                       else Inr (s_buf s1)) (\<lambda>lb1.
              andThen (case opt of
                         Some [x] \<Rightarrow>
                           andThen (Insert lb1 SPACE) (\<lambda>lb2.
                             Inr (s1\<lparr>s_buf := lb2, s_options := None\<rparr>))
                       | _ \<Rightarrow> Inr (putChar (s1\<lparr>s_buf := lb1, s_options := opt\<rparr>) BEEP)) (\<lambda>s2.
              andThen (redraw s2 0) (\<lambda>s'. Inr (Continue s'))))))"

text \<open>The case \<open>RETURN\<close>.\<close>

definition returnKey :: "'h ReplHandler \<Rightarrow> 'h session \<Rightarrow> panic + 'h control" where
  "returnKey h s0 =
     (let s1 = (if \<not> IsEmpty (s_buf s0) then putChar s0 NEWLINE else s0)
      in andThen (String (s_buf s1)) (\<lambda>line.
           let lb = Clear (AddToHistory (s_buf s1) line);
               ((result, more', err), hs) = Eval h (s_handler s1) line;
               s2 = s1\<lparr>s_buf := lb, s_handler := hs, s_calls := s_calls s1 @ [CallEval line]\<rparr>
           in case err of
                Some e \<Rightarrow>
                  Inr (Continue (newPrompt h
                         (putString (s2\<lparr>s_buf := Clear (s_buf s2)\<rparr>)
                            (''*** '' @ Error e @ [NEWLINE]))))
              | None \<Rightarrow>
                  if more' then Inr (Continue (s2\<lparr>s_prompt := []\<rparr>))
                  else Inr (Continue (newPrompt h (putString s2 (result @ [NEWLINE]))))))"

text \<open>The \<open>switch\<close> of the normal state.\<close>

definition normalKey :: "'h ReplHandler \<Rightarrow> 'h session \<Rightarrow> byte \<Rightarrow> panic + 'h control" where
  "normalKey h s ch =
     (if ch = ESCAPE then Inr (Continue (s\<lparr>s_meta := True\<rparr>))
      else if ch = CTRL_D
      then (if IsEmpty (s_buf s)
            then Inr (Return None (callStop h (putString s [NEWLINE])))
            else andThen (Delete (s_buf s)) (\<lambda>(r, lb).
                 andThen (redraw (s\<lparr>s_buf := lb\<rparr>) 1) (\<lambda>s'. Inr (Continue s'))))
      else if ch = CTRL_A
      then andThen (redraw (s\<lparr>s_buf := Begin (s_buf s)\<rparr>) 0) (\<lambda>s'. Inr (Continue s'))
      else if ch = CTRL_E
      then andThen (redraw (s\<lparr>s_buf := End (s_buf s)\<rparr>) 0) (\<lambda>s'. Inr (Continue s'))
      else if ch = CTRL_F
      then (case Forward (s_buf s) of
              (True, lb) \<Rightarrow>
                andThen (redraw (putString (s\<lparr>s_buf := lb\<rparr>) cursorForward) 0)
                  (\<lambda>s'. Inr (Continue s'))
            | (False, lb) \<Rightarrow> Inr (Continue (s\<lparr>s_buf := lb\<rparr>)))
      else if ch = CTRL_B
      then (case Backward (s_buf s) of
              (True, lb) \<Rightarrow>
                andThen (redraw (putString (s\<lparr>s_buf := lb\<rparr>) cursorBackward) 0)
                  (\<lambda>s'. Inr (Continue s'))
            | (False, lb) \<Rightarrow> Inr (Continue (s\<lparr>s_buf := lb\<rparr>)))
      else if ch = CTRL_C
      then (let s1 = (putString s (''*** Interrupt ***'' @ [NEWLINE]))\<lparr>s_buf := Clear (s_buf s)\<rparr>;
                s2 = s1\<lparr>s_handler := Reset h (s_handler s1), s_calls := s_calls s1 @ [CallReset]\<rparr>
            in Inr (Continue (newPrompt h s2)))
      else if ch = CTRL_K
      then andThen (KillToEnd (s_buf s)) (\<lambda>(n, lb).
           andThen (redraw (s\<lparr>s_buf := lb\<rparr>) n) (\<lambda>s'. Inr (Continue s')))
      else if ch = CTRL_Y
      then andThen (Yank (s_buf s)) (\<lambda>(n, lb).
           andThen (redraw (s\<lparr>s_buf := lb\<rparr>) n) (\<lambda>s'. Inr (Continue s')))
      else if ch = CTRL_L
      then andThen (redraw (putString s [NEWLINE]) 0) (\<lambda>s'. Inr (Continue s'))
      else if ch = CTRL_N
      then andThen (NextInHistory (s_buf s)) (\<lambda>(n, lb).
           andThen (redraw (s\<lparr>s_buf := lb\<rparr>) n) (\<lambda>s'. Inr (Continue s')))
      else if ch = CTRL_P
      then andThen (PrevInHistory (s_buf s)) (\<lambda>(n, lb).
           andThen (redraw (s\<lparr>s_buf := lb\<rparr>) n) (\<lambda>s'. Inr (Continue s')))
      else if ch = TAB then tabKey h s
      else if ch = DELETE
      then (case Backward (s_buf s) of
              (True, lb) \<Rightarrow>
                andThen (Delete lb) (\<lambda>(r, lb').
                andThen (redraw (s\<lparr>s_buf := lb'\<rparr>) 1) (\<lambda>s'. Inr (Continue s')))
            | (False, lb) \<Rightarrow> Inr (Continue (putChar (s\<lparr>s_buf := lb\<rparr>) BEEP)))
      else if ch = RETURN then returnKey h s
      else if (of_char ch :: nat) \<ge> of_char SPACE \<and> (of_char ch :: nat) < 127
      then andThen (Insert (s_buf s) ch) (\<lambda>lb.
           andThen (redraw (s\<lparr>s_buf := lb\<rparr>) 0) (\<lambda>s1.
             if matching ch \<noteq> CHR 0x00
             then andThen (highlightMatch (s_buf s1) (s_prompt s1) (matching ch) ch)
                    (\<lambda>(lb', out). Inr (Continue (putString (s1\<lparr>s_buf := lb'\<rparr>) out)))
             else Inr (Continue s1)))
      else Inr (Continue (putChar s BEEP)))"

text \<open>
  The loop \<open>for true { ... }\<close> reads the terminal one byte at a time and blocks when
  nothing is there. It is run on the list of the results of the reads made so far:
  it has returned, it has panicked, or it is waiting for the next read.
\<close>

datatype 'h outcome = Returned "go_error option" "'h session" | Panicked panic
  | AwaitingInput "'h session"

fun loop :: "'h ReplHandler \<Rightarrow> 'h session \<Rightarrow> read list \<Rightarrow> 'h outcome" where
  "loop h s [] = AwaitingInput s"
| "loop h s (r # rs) =
     (case getChar r of
        (ch, Some err) \<Rightarrow> Returned (Some err) (callStop h s)
      | (ch, None) \<Rightarrow>
          (case (if s_meta s then metaKey s ch else normalKey h s ch) of
             Inl e \<Rightarrow> Panicked e
           | Inr (Return e s') \<Rightarrow> Returned e s'
           | Inr (Continue s') \<Rightarrow> loop h (s'\<lparr>s_lastChar := ch\<rparr>) rs))"

text \<open>The statements of \<open>repl\<close> before the loop: the buffer of capacity 1024, the
  history the handler starts with, the first prompt.\<close>

definition startSession :: "'h ReplHandler \<Rightarrow> 'h \<Rightarrow> 'h session" where
  "startSession h hs0 =
     (let lb = newLineBuf 1024;
          (hist, hs1) = Start h hs0;
          lb' = (if hist \<noteq> None then lb\<lparr>history := hist\<rparr> else lb);
          (p, hs2) = Prompt h hs1
      in \<lparr>s_buf = lb', s_prompt = p, s_meta = False, s_lastChar = CHR 0x00,
          s_options = None, s_handler = hs2, s_out = p, s_calls = [CallStart, CallPrompt]\<rparr>)"

definition repl :: "'h ReplHandler \<Rightarrow> 'h \<Rightarrow> read list \<Rightarrow> 'h outcome" where
  "repl h hs0 reads = loop h (startSession h hs0) reads"

text \<open>
  \<open>REPL\<close>: \<open>makeCbreak\<close> sets the terminal mode through the operating system; its
  result is the parameter \<open>cbreak\<close> (\<open>None\<close> when it succeeds). On failure \<open>REPL\<close>
  returns that error (\<open>Inl\<close>) and the loop never runs. Otherwise it runs \<open>repl\<close> as a
  statement and then executes \<open>return nil\<close>; the deferred \<open>restore\<close> resets the
  terminal mode and touches nothing of the session.
\<close>

definition REPL ::
  "'h ReplHandler \<Rightarrow> go_error option \<Rightarrow> 'h \<Rightarrow> read list \<Rightarrow> go_error + 'h outcome" where
  "REPL h cbreak hs0 reads =
     (case cbreak of
        Some err \<Rightarrow> Inl err
      | None \<Rightarrow>
          Inr (case repl h hs0 reads of
                 Returned e s \<Rightarrow> Returned None s
               | Panicked p \<Rightarrow> Panicked p
               | AwaitingInput s \<Rightarrow> AwaitingInput s))"

section \<open>Slices and insertion\<close>

lemma String_content: "0 \<le> length_lb lb \<Longrightarrow> length_lb lb \<le> int (length (buf lb)) \<Longrightarrow> String lb = Inr (content lb)"
  by (simp add: String_def slice_def content_def)

lemma copy_grow: "copy (replicate (length xs + k) z) xs = xs @ replicate k z"
  by (simp add: copy_def)

lemma copyWithin_right:
  assumes "Suc c \<le> length xs"
  shows "copyWithin xs (int c + 1) (int c) = Inr (take (Suc c) xs @ take (length xs - Suc c) (drop c xs))"
proof -
  have a: "sliceFrom xs (int c + 1) = Inr (drop (Suc c) xs)"
    using assms by (simp add: sliceFrom_def nat_add_distrib)
  have b: "sliceFrom xs (int c) = Inr (drop c xs)"
    using assms by (simp add: sliceFrom_def)
  have c: "nat (int c + 1) = Suc c" by simp
  show ?thesis
    unfolding copyWithin_def a b andThen_def c
    using assms by (simp add: copy_def)
qed

lemma copyWithin_left:
  assumes "e \<le> length xs" "b \<le> e"
  shows "copyWithin xs (int b) (int e) = Inr (take b xs @ drop e xs @ drop (length xs - (e - b)) xs)"
proof -
  have a: "sliceFrom xs (int b) = Inr (drop b xs)"
    using assms by (simp add: sliceFrom_def)
  have b: "sliceFrom xs (int e) = Inr (drop e xs)"
    using assms by (simp add: sliceFrom_def)
  show ?thesis
    unfolding copyWithin_def a b andThen_def
    using assms by (simp add: copy_def)
qed

lemma store_nat: "i < length xs \<Longrightarrow> store xs (int i) v = Inr (xs[i := v])"
  by (simp add: store_def)

lemma insert_shift_list:
  assumes "c \<le> l" "l < length xs"
  shows "take (Suc l) ((take (Suc c) xs @ take (length xs - Suc c) (drop c xs))[c := ch])
         = take c xs @ ch # take (l - c) (drop c xs)"
proof -
  have c: "c < length xs" using assms by simp
  have t: "take (Suc c) xs = take c xs @ [xs ! c]"
    using c by (rule take_Suc_conv_app_nth)
  have lc: "length (take c xs) = c" using c by simp
  have u: "(take (Suc c) xs @ ys)[c := ch] = take c xs @ ch # ys" for ys
    unfolding t using lc by (metis append_Cons append_Nil append_assoc list_update_length)
  have "take (Suc l) (take c xs @ ch # ys) = take c xs @ ch # take (l - c) ys" for ys
    using assms lc by (simp add: Suc_diff_le)
  then show ?thesis unfolding u using assms by (simp add: min_def)
qed

lemma insert_end_list:
  assumes "l < length xs"
  shows "take (Suc l) (xs[l := ch]) = take l xs @ [ch]"
  using assms by (simp add: take_Suc_conv_app_nth)

lemma Insert_effect:
  assumes "lb_inv lb"
  shows "\<exists>b. Insert lb ch = Inr (lb\<lparr>yanking := False, buf := b, cursor := cursor lb + 1, length_lb := length_lb lb + 1\<rparr>)
     \<and> length (buf lb) \<le> length b \<and> length_lb lb < int (length b)
     \<and> take (nat (length_lb lb + 1)) b = take (nat (cursor lb)) (content lb) @ ch # drop (nat (cursor lb)) (content lb)"
proof -
  obtain c l where c: "cursor lb = int c" and l: "length_lb lb = int l"
    and cl: "c \<le> l" and lx: "l \<le> length (buf lb)"
    using assms unfolding lb_inv_def
    by (metis nat_0_le nat_le_iff order_trans)
  define xs where "xs = (if l = length (buf lb) then buf lb @ replicate 10 (CHR 0x00) else buf lb)"
  have grow: "copy (replicate (nat (int (length (buf lb)) + 10)) (CHR 0x00)) (buf lb) = buf lb @ replicate 10 (CHR 0x00)"
    by (simp add: copy_def nat_add_distrib)
  have lxs: "l < length xs" "length (buf lb) \<le> length xs" using lx by (auto simp: xs_def)
  have tk: "take l xs = take l (buf lb)" using lx by (simp add: xs_def)
  define b where "b = (if c = l then xs[c := ch] else (take (Suc c) xs @ take (length xs - Suc c) (drop c xs))[c := ch])"
  have lb: "length b = length xs" using cl lxs by (auto simp: b_def)
  have st: "(if int c = int l then store xs (int c) ch
            else andThen (copyWithin xs (int c + 1) (int c)) (\<lambda>b. store b (int c) ch)) = Inr b"
  proof (cases "c = l")
    case True
    then show ?thesis using lxs by (simp add: store_nat b_def)
  next
    case False
    then have "Suc c \<le> length xs" using cl lxs by simp
    then show ?thesis using False cl lxs
      by (simp add: copyWithin_right andThen_def store_nat b_def)
  qed
  have ins: "Insert lb ch = Inr (lb\<lparr>yanking := False, buf := b, cursor := cursor lb + 1, length_lb := length_lb lb + 1\<rparr>)"
  proof -
    have b0: "(if length_lb lb = int (length (buf lb))
                then copy (replicate (nat (int (length (buf lb)) + 10)) (CHR 0x00)) (buf lb)
                else buf lb) = xs"
      by (simp add: l grow xs_def)
    show ?thesis
      unfolding Insert_def Let_def b0 unfolding c l st by (simp add: andThen_def)
  qed
  have "take (Suc l) b = take c (take l xs) @ ch # drop c (take l xs)"
  proof (cases "c = l")
    case True
    then show ?thesis using lxs by (simp add: b_def insert_end_list)
  next
    case False
    then show ?thesis using cl lxs
      by (simp add: b_def insert_shift_list min_def drop_take)
  qed
  then have "take (nat (length_lb lb + 1)) b = take (nat (cursor lb)) (content lb) @ ch # drop (nat (cursor lb)) (content lb)"
    by (simp add: c l content_def tk nat_add_distrib)
  then show ?thesis using ins lb lxs l by auto
qed


lemma length_content: "lb_inv lb \<Longrightarrow> length (content lb) = nat (length_lb lb)"
  unfolding content_def lb_inv_def by (simp add: min_def) linarith

lemma Insert_fields:
  assumes "lb_inv lb"
  shows "\<exists>lb'. Insert lb ch = Inr lb' \<and> lb_inv lb'
     \<and> cursor lb' = cursor lb + 1 \<and> length_lb lb' = length_lb lb + 1
     \<and> content lb' = take (nat (cursor lb)) (content lb) @ ch # drop (nat (cursor lb)) (content lb)
     \<and> yanked lb' = yanked lb \<and> yanking lb' = False
     \<and> history lb' = history lb \<and> historyIndex lb' = historyIndex lb
     \<and> length (buf lb) \<le> length (buf lb')"
proof -
  from Insert_effect [OF assms, of ch] obtain b where
    i: "Insert lb ch = Inr (lb\<lparr>yanking := False, buf := b, cursor := cursor lb + 1, length_lb := length_lb lb + 1\<rparr>)"
    and g: "length (buf lb) \<le> length b" and lt: "length_lb lb < int (length b)"
    and t: "take (nat (length_lb lb + 1)) b = take (nat (cursor lb)) (content lb) @ ch # drop (nat (cursor lb)) (content lb)"
    by blast
  let ?lb' = "lb\<lparr>yanking := False, buf := b, cursor := cursor lb + 1, length_lb := length_lb lb + 1\<rparr>"
  have "lb_inv ?lb'" using assms lt by (simp add: lb_inv_def)
  moreover have "content ?lb' = take (nat (cursor lb)) (content lb) @ ch # drop (nat (cursor lb)) (content lb)"
    using t by (simp add: content_def)
  ultimately show ?thesis using i g by simp
qed

lemma InsertBytes_fields:
  assumes "lb_inv lb"
  shows "\<exists>lb'. InsertBytes lb chs = Inr lb' \<and> lb_inv lb'
     \<and> cursor lb' = cursor lb + int (length chs) \<and> length_lb lb' = length_lb lb + int (length chs)
     \<and> content lb' = take (nat (cursor lb)) (content lb) @ chs @ drop (nat (cursor lb)) (content lb)
     \<and> yanked lb' = yanked lb \<and> yanking lb' = (if chs = [] then yanking lb else False)
     \<and> history lb' = history lb \<and> historyIndex lb' = historyIndex lb
     \<and> length (buf lb) \<le> length (buf lb')"
  using assms
proof (induction chs arbitrary: lb)
  case Nil
  then show ?case by (simp add: length_content lb_inv_def)
next
  case (Cons ch chs)
  from Insert_fields [OF Cons.prems, of ch] obtain lb1 where
    i: "Insert lb ch = Inr lb1" and inv1: "lb_inv lb1"
    and c1: "cursor lb1 = cursor lb + 1" and l1: "length_lb lb1 = length_lb lb + 1"
    and ct1: "content lb1 = take (nat (cursor lb)) (content lb) @ ch # drop (nat (cursor lb)) (content lb)"
    and r1: "yanked lb1 = yanked lb" "yanking lb1 = False" "history lb1 = history lb"
       "historyIndex lb1 = historyIndex lb" "length (buf lb) \<le> length (buf lb1)"
    by blast
  from Cons.IH [OF inv1] obtain lb' where
    ib: "InsertBytes lb1 chs = Inr lb'" and inv': "lb_inv lb'"
    and c': "cursor lb' = cursor lb1 + int (length chs)" and l': "length_lb lb' = length_lb lb1 + int (length chs)"
    and ct': "content lb' = take (nat (cursor lb1)) (content lb1) @ chs @ drop (nat (cursor lb1)) (content lb1)"
    and r': "yanked lb' = yanked lb1" "yanking lb' = (if chs = [] then yanking lb1 else False)"
       "history lb' = history lb1" "historyIndex lb' = historyIndex lb1" "length (buf lb1) \<le> length (buf lb')"
    by blast
  have cl: "nat (cursor lb) \<le> length (content lb)" "0 \<le> cursor lb"
    using Cons.prems length_content [OF Cons.prems] unfolding lb_inv_def by linarith+
  have n1: "nat (cursor lb1) = Suc (nat (cursor lb))" using c1 cl by simp
  have "content lb' = take (nat (cursor lb)) (content lb) @ (ch # chs) @ drop (nat (cursor lb)) (content lb)"
    unfolding ct' n1 ct1 using cl by simp
  moreover have "InsertBytes lb (ch # chs) = Inr lb'" using i ib by (simp add: andThen_def)
  ultimately show ?case using inv' c' l' r' c1 l1 r1 by simp
qed


lemma slice_nat:
  "b \<le> e \<Longrightarrow> e \<le> length xs \<Longrightarrow> slice xs (int b) (int e) = Inr (take (e - b) (drop b xs))"
  by (simp add: slice_def of_nat_diff [symmetric] del: of_nat_diff)

lemma DeleteRange_nat:
  assumes "b < e" "e \<le> l" "l \<le> length (buf lb)" "length_lb lb = int l"
  shows "DeleteRange lb (int b) (int e) =
     Inr (int e - int b,
          lb\<lparr>yanked := (if yanking lb then yanked lb @ take (e - b) (drop b (buf lb))
                         else take (e - b) (drop b (buf lb))),
             buf := take b (buf lb) @ drop e (buf lb) @ drop (length (buf lb) - (e - b)) (buf lb),
             length_lb := int l - (int e - int b), cursor := int b\<rparr>)"
proof -
  have s: "slice (buf lb) (int b) (int e) = Inr (take (e - b) (drop b (buf lb)))"
    using assms by (simp add: slice_nat)
  have c: "copyWithin (buf lb) (int b) (int e)
      = Inr (take b (buf lb) @ drop e (buf lb) @ drop (length (buf lb) - (e - b)) (buf lb))"
    using assms by (simp add: copyWithin_left)
  show ?thesis
    unfolding DeleteRange_def Let_def using assms
    by (simp add: s c andThen_def)
qed

lemma shifted_prefix:
  assumes "b \<le> e" "e \<le> l" "l \<le> length xs"
  shows "take (l - (e - b)) (take b xs @ drop e xs @ ys) = take b (take l xs) @ drop e (take l xs)"
proof -
  have lb: "length (take b xs) = b" using assms by simp
  have d: "l - (e - b) - b = l - e" using assms by simp
  have "take (l - (e - b)) (take b xs @ drop e xs @ ys) = take b xs @ take (l - e) (drop e xs @ ys)"
    using assms lb by (simp add: d)
  moreover have "take (l - e) (drop e xs @ ys) = take (l - e) (drop e xs)"
    using assms by simp
  moreover have "take b xs = take b (take l xs)" using assms by (simp add: min_def)
  moreover have "take (l - e) (drop e xs) = drop e (take l xs)" by (simp add: drop_take)
  ultimately show ?thesis by simp
qed


lemma DeleteRange_noop:
  "b > length_lb lb \<or> e < 0 \<Longrightarrow> 0 \<le> length_lb lb \<Longrightarrow> DeleteRange lb b e = Inr (0, lb)"
  by (auto simp: DeleteRange_def Let_def)

section \<open>Deleting, killing and yanking\<close>

lemma DeleteRange_removes:
  assumes inv: "lb_inv lb" and rng: "\<not> (b > length_lb lb \<or> e < 0)"
    and ne: "min e (length_lb lb) - max 0 b > 0"
  defines "b' \<equiv> max 0 b" and "e' \<equiv> min e (length_lb lb)"
  defines "span \<equiv> take (nat (e' - b')) (drop (nat b') (content lb))"
  shows "\<exists>bf. DeleteRange lb b e =
           Inr (e' - b',
                lb\<lparr>yanked := (if yanking lb then yanked lb @ span else span), buf := bf,
                   length_lb := length_lb lb - (e' - b'), cursor := b'\<rparr>)
         \<and> length bf = length (buf lb)
         \<and> take (nat (length_lb lb - (e' - b'))) bf
             = take (nat b') (content lb) @ drop (nat e') (content lb)"
proof -
  obtain l where l: "length_lb lb = int l" and lx: "l \<le> length (buf lb)"
    using inv unfolding lb_inv_def by (metis nat_0_le nat_le_iff order_trans)
  obtain nb ne where nb: "b' = int nb" and ne': "e' = int ne"
    and lt: "nb < ne" and le: "ne \<le> l"
  proof -
    have "0 \<le> b'" "b' < e'" "e' \<le> int l" using ne l by (auto simp: b'_def e'_def)
    then have "b' = int (nat b')" "e' = int (nat e')" "nat b' < nat e'" "nat e' \<le> l" by auto
    then show ?thesis using that by blast
  qed
  have same: "DeleteRange lb b e = DeleteRange lb b' e'"
    using rng ne l unfolding DeleteRange_def Let_def b'_def e'_def
    by (simp add: max_def min_def)
  have sp: "span = take (ne - nb) (drop nb (buf lb))"
  proof -
    have "nat (e' - b') = ne - nb" using lt by (simp add: nb ne')
    then show ?thesis using lt le lx by (simp add: span_def nb content_def l drop_take min_def)
  qed
  have d: "DeleteRange lb b' e' =
     Inr (e' - b',
          lb\<lparr>yanked := (if yanking lb then yanked lb @ span else span),
             buf := take nb (buf lb) @ drop ne (buf lb) @ drop (length (buf lb) - (ne - nb)) (buf lb),
             length_lb := length_lb lb - (e' - b'), cursor := b'\<rparr>)"
    unfolding nb ne' sp l using DeleteRange_nat [OF lt le lx l] by simp
  have len: "length (take nb (buf lb) @ drop ne (buf lb) @ drop (length (buf lb) - (ne - nb)) (buf lb))
      = length (buf lb)"
    using lt le lx by simp
  have n: "nat (length_lb lb - (e' - b')) = l - (ne - nb)"
    using lt le by (simp add: l nb ne')
  have ct: "take (nat (length_lb lb - (e' - b')))
        (take nb (buf lb) @ drop ne (buf lb) @ drop (length (buf lb) - (ne - nb)) (buf lb))
      = take (nat b') (content lb) @ drop (nat e') (content lb)"
    unfolding n using shifted_prefix [of nb ne l "buf lb"] lt le lx
    by (simp add: content_def l nb ne')
  show ?thesis unfolding same d using len ct by blast
qed


lemma KillToEnd_effect:
  assumes "lb_inv lb"
  shows "KillToEnd lb =
     Inr (length_lb lb - cursor lb,
          lb\<lparr>yanked := (if yanking lb then yanked lb @ drop (nat (cursor lb)) (content lb)
                         else drop (nat (cursor lb)) (content lb)),
             length_lb := cursor lb, yanking := False\<rparr>)"
proof -
  obtain c l where c: "cursor lb = int c" and l: "length_lb lb = int l"
    and cl: "c \<le> l" and lx: "l \<le> length (buf lb)"
    using assms unfolding lb_inv_def by (metis nat_0_le nat_le_iff order_trans)
  have "slice (buf lb) (int c) (int l) = Inr (drop c (take l (buf lb)))"
    using cl lx by (simp add: slice_nat drop_take)
  then show ?thesis
    unfolding KillToEnd_def Let_def by (simp add: c l andThen_def content_def)
qed

lemma Yank_effect:
  assumes "lb_inv lb"
  shows "\<exists>lb'. Yank lb = Inr (int (length (yanked lb)), lb') \<and> lb_inv lb'
     \<and> cursor lb' = cursor lb + int (length (yanked lb))
     \<and> length_lb lb' = length_lb lb + int (length (yanked lb))
     \<and> content lb' = take (nat (cursor lb)) (content lb) @ yanked lb @ drop (nat (cursor lb)) (content lb)
     \<and> yanked lb' = yanked lb \<and> yanking lb' = (yanked lb = [])
     \<and> history lb' = history lb \<and> historyIndex lb' = historyIndex lb"
proof -
  let ?lb = "lb\<lparr>yanking := True\<rparr>"
  have inv: "lb_inv ?lb" using assms by (simp add: lb_inv_def)
  from InsertBytes_fields [OF inv, of "yanked lb"] obtain lb' where
    ib: "InsertBytes ?lb (yanked lb) = Inr lb'" and inv': "lb_inv lb'"
    and f: "cursor lb' = cursor lb + int (length (yanked lb))"
       "length_lb lb' = length_lb lb + int (length (yanked lb))"
       "content lb' = take (nat (cursor lb)) (content ?lb) @ yanked lb @ drop (nat (cursor lb)) (content ?lb)"
       "yanked lb' = yanked lb" "yanking lb' = (yanked lb = [])"
       "history lb' = history lb" "historyIndex lb' = historyIndex lb"
    by (simp split: if_splits) blast
  have "Yank lb = Inr (int (length (yanked lb)), lb')"
    unfolding Yank_def Let_def using ib f(4) by (simp add: andThen_def)
  moreover have "content ?lb = content lb" by (simp add: content_def)
  ultimately show ?thesis using inv' f by auto
qed

lemma kill_yank_roundtrip:
  assumes inv: "lb_inv lb" and reg: "\<not> yanking lb \<or> yanked lb = []"
  shows "\<exists>n lb1 m lb2. KillToEnd lb = Inr (n, lb1) \<and> Yank lb1 = Inr (m, lb2)
     \<and> String lb2 = String lb \<and> length_lb lb2 = length_lb lb"
proof -
  let ?span = "drop (nat (cursor lb)) (content lb)"
  let ?lb1 = "lb\<lparr>yanked := ?span, length_lb := cursor lb, yanking := False\<rparr>"
  have k: "KillToEnd lb = Inr (length_lb lb - cursor lb, ?lb1)"
    using KillToEnd_effect [OF inv] reg by auto
  have inv1: "lb_inv ?lb1" using inv by (simp add: lb_inv_def)
  from Yank_effect [OF inv1] obtain lb2 where
    y: "Yank ?lb1 = Inr (int (length ?span), lb2)" and inv2: "lb_inv lb2"
    and l2: "length_lb lb2 = cursor lb + int (length ?span)"
    and c2: "content lb2 = take (nat (cursor lb)) (content ?lb1) @ ?span @ drop (nat (cursor lb)) (content ?lb1)"
    by auto
  have bounds: "0 \<le> cursor lb" "cursor lb \<le> length_lb lb" "length_lb lb \<le> int (length (buf lb))"
    using inv by (simp_all add: lb_inv_def)
  have c1: "content ?lb1 = take (nat (cursor lb)) (content lb)"
    using bounds by (simp add: content_def min_def)
  have "content lb2 = content lb"
    unfolding c2 c1 by simp
  moreover have "length_lb lb2 = length_lb lb"
    unfolding l2 using bounds length_content [OF inv] by simp
  moreover have "String lb2 = Inr (content lb2)" "String lb = Inr (content lb)"
    using inv inv2 by (simp_all add: String_content lb_inv_def)
  ultimately show ?thesis using k y by auto
qed


section \<open>Scans, words and history\<close>

lemma skipSpacesBack_ok:
  "0 \<le> i \<Longrightarrow> i < int (length b) \<Longrightarrow> \<exists>j. skipSpacesBack b i = Inr j \<and> 0 \<le> j \<and> j \<le> i"
proof (induction b i rule: skipSpacesBack.induct)
  case (1 b i)
  show ?case
  proof (cases "i > 0")
    case False
    then show ?thesis using "1.prems" by (subst skipSpacesBack.simps) simp
  next
    case True
    then have a: "at b i = Inr (b ! nat i)" using "1.prems" by (simp add: at_def)
    show ?thesis
    proof (cases "b ! nat i \<noteq> SPACE")
      case True
      then show ?thesis using \<open>i > 0\<close> a by (subst skipSpacesBack.simps) simp
    next
      case False
      from "1.IH" [OF \<open>i > 0\<close> a] False "1.prems" \<open>i > 0\<close>
      obtain j where "skipSpacesBack b (i - 1) = Inr j" "0 \<le> j" "j \<le> i - 1" by auto
      then show ?thesis using \<open>i > 0\<close> a False by (subst skipSpacesBack.simps) simp
    qed
  qed
qed

lemma findSpaceBack_ok:
  "0 \<le> i \<Longrightarrow> i < int (length b) \<Longrightarrow>
   findSpaceBack b i = Inr None \<or> (\<exists>j. findSpaceBack b i = Inr (Some j) \<and> 0 < j \<and> j \<le> i)"
proof (induction b i rule: findSpaceBack.induct)
  case (1 b i)
  show ?case
  proof (cases "i > 0")
    case False
    then show ?thesis by (subst findSpaceBack.simps) simp
  next
    case True
    then have a: "at b i = Inr (b ! nat i)" using "1.prems" by (simp add: at_def)
    show ?thesis
    proof (cases "b ! nat i = SPACE")
      case True
      then show ?thesis using \<open>i > 0\<close> a by (subst (1 2) findSpaceBack.simps) simp
    next
      case False
      from "1.IH" [OF \<open>i > 0\<close> a False] "1.prems" \<open>i > 0\<close>
      have "findSpaceBack b (i - 1) = Inr None \<or>
         (\<exists>j. findSpaceBack b (i - 1) = Inr (Some j) \<and> 0 < j \<and> j \<le> i - 1)" by simp
      moreover have "findSpaceBack b i = findSpaceBack b (i - 1)"
        using \<open>i > 0\<close> a False by (subst findSpaceBack.simps) simp
      ultimately show ?thesis by auto
    qed
  qed
qed

lemma skipSpacesFwd_ok:
  "0 \<le> i \<Longrightarrow> len \<le> int (length b) \<Longrightarrow>
   \<exists>j. skipSpacesFwd b len i = Inr j \<and> i \<le> j \<and> (j \<le> len \<or> j = i)"
proof (induction b len i rule: skipSpacesFwd.induct)
  case (1 b len i)
  show ?case
  proof (cases "i < len")
    case False
    then show ?thesis by (subst skipSpacesFwd.simps) simp
  next
    case True
    then have a: "at b i = Inr (b ! nat i)" using "1.prems" by (simp add: at_def)
    show ?thesis
    proof (cases "b ! nat i \<noteq> SPACE")
      case True
      then show ?thesis using \<open>i < len\<close> a by (subst skipSpacesFwd.simps) simp
    next
      case False
      from "1.IH" [OF \<open>i < len\<close> a] False "1.prems"
      obtain j where "skipSpacesFwd b len (i + 1) = Inr j" "i + 1 \<le> j" "j \<le> len \<or> j = i + 1" by auto
      then show ?thesis using \<open>i < len\<close> a False by (subst skipSpacesFwd.simps) auto
    qed
  qed
qed

lemma findSpaceFwd_ok:
  "0 \<le> i \<Longrightarrow> len \<le> int (length b) \<Longrightarrow>
   findSpaceFwd b len i = Inr None \<or> (\<exists>j. findSpaceFwd b len i = Inr (Some j) \<and> i \<le> j \<and> j < len)"
proof (induction b len i rule: findSpaceFwd.induct)
  case (1 b len i)
  show ?case
  proof (cases "i < len")
    case False
    then show ?thesis by (subst findSpaceFwd.simps) simp
  next
    case True
    then have a: "at b i = Inr (b ! nat i)" using "1.prems" by (simp add: at_def)
    show ?thesis
    proof (cases "b ! nat i = SPACE")
      case True
      then show ?thesis using \<open>i < len\<close> a by (subst (1 2) findSpaceFwd.simps) simp
    next
      case False
      from "1.IH" [OF \<open>i < len\<close> a False] "1.prems"
      have "findSpaceFwd b len (i + 1) = Inr None \<or>
         (\<exists>j. findSpaceFwd b len (i + 1) = Inr (Some j) \<and> i + 1 \<le> j \<and> j < len)" by simp
      moreover have "findSpaceFwd b len i = findSpaceFwd b len (i + 1)"
        using \<open>i < len\<close> a False by (subst findSpaceFwd.simps) simp
      ultimately show ?thesis by auto
    qed
  qed
qed


lemma DeleteRange_empty:
  assumes "\<not> (b > length_lb lb \<or> e < 0)" "\<not> max 0 b < min e (length_lb lb)"
  shows "DeleteRange lb b e = Inr (min e (length_lb lb) - max 0 b, lb)"
proof -
  have b': "(if b < 0 then 0 else b) = max 0 b" by (simp add: max_def)
  have e': "(if e > length_lb lb then length_lb lb else e) = min e (length_lb lb)"
    by (simp add: min_def)
  have g: "\<not> (\<not> b < 0 \<and> b > length_lb lb)" "\<not> (\<not> e > length_lb lb \<and> e < 0)"
    "\<not> min e (length_lb lb) - max 0 b > 0"
    using assms by simp_all
  show ?thesis unfolding DeleteRange_def Let_def b' e' by (simp only: g if_False)
qed

lemma DeleteRange_inv:
  assumes "lb_inv lb"
  shows "\<exists>n lb'. DeleteRange lb b e = Inr (n, lb') \<and> lb_inv lb'"
proof (cases "b > length_lb lb \<or> e < 0")
  case True
  then show ?thesis using assms DeleteRange_noop [of lb b e] by (auto simp: lb_inv_def)
next
  case False
  show ?thesis
  proof (cases "max 0 b < min e (length_lb lb)")
    case False
    then show ?thesis using DeleteRange_empty [OF \<open>\<not> (b > length_lb lb \<or> e < 0)\<close> False] assms by blast
  next
    case True
    then have "min e (length_lb lb) - max 0 b > 0" by simp
    from DeleteRange_removes [OF assms False this]
    obtain bf where d: "DeleteRange lb b e =
           Inr (min e (length_lb lb) - max 0 b,
                lb\<lparr>yanked := (if yanking lb
                    then yanked lb @ take (nat (min e (length_lb lb) - max 0 b)) (drop (nat (max 0 b)) (content lb))
                    else take (nat (min e (length_lb lb) - max 0 b)) (drop (nat (max 0 b)) (content lb))),
                   buf := bf,
                   length_lb := length_lb lb - (min e (length_lb lb) - max 0 b), cursor := max 0 b\<rparr>)"
      and len: "length bf = length (buf lb)" by blast
    have "lb_inv (lb\<lparr>yanked := (if yanking lb
                    then yanked lb @ take (nat (min e (length_lb lb) - max 0 b)) (drop (nat (max 0 b)) (content lb))
                    else take (nat (min e (length_lb lb) - max 0 b)) (drop (nat (max 0 b)) (content lb))),
                   buf := bf,
                   length_lb := length_lb lb - (min e (length_lb lb) - max 0 b), cursor := max 0 b\<rparr>)"
      using assms True len unfolding lb_inv_def by simp linarith
    then show ?thesis using d by blast
  qed
qed

lemma Delete_inv:
  assumes "lb_inv lb"
  shows "\<exists>r lb'. Delete lb = Inr (r, lb') \<and> lb_inv lb'"
proof (cases "cursor lb < length_lb lb")
  case False
  then have "Delete lb = Inr (False, lb\<lparr>yanking := False\<rparr>)"
    by (simp add: Delete_def Let_def)
  moreover have "lb_inv (lb\<lparr>yanking := False\<rparr>)" using assms by (simp add: lb_inv_def)
  ultimately show ?thesis by blast
next
  case True
  obtain c l where c: "cursor lb = int c" and l: "length_lb lb = int l"
    and cl: "c < l" and lx: "l \<le> length (buf lb)"
  proof -
    have "cursor lb = int (nat (cursor lb))" "length_lb lb = int (nat (length_lb lb))"
       "nat (cursor lb) < nat (length_lb lb)" "nat (length_lb lb) \<le> length (buf lb)"
      using assms True unfolding lb_inv_def by linarith+
    then show ?thesis using that by blast
  qed
  have "copyWithin (buf lb) (int c) (int (Suc c))
      = Inr (take c (buf lb) @ drop (Suc c) (buf lb) @ drop (length (buf lb) - (Suc c - c)) (buf lb))"
    using cl lx by (intro copyWithin_left) simp_all
  then obtain bf where cw: "copyWithin (buf lb) (int c) (int c + 1) = Inr bf"
    and len: "length bf = length (buf lb)" using cl lx by (simp add: add.commute) 
  have "Delete lb = Inr (True, lb\<lparr>yanking := False, buf := bf, length_lb := length_lb lb - 1\<rparr>)"
    using True cw unfolding Delete_def Let_def by (simp add: c andThen_def)
  moreover have "lb_inv (lb\<lparr>yanking := False, buf := bf, length_lb := length_lb lb - 1\<rparr>)"
    using assms True len by (simp add: lb_inv_def)
  ultimately show ?thesis by blast
qed


lemma back_scan_start:
  assumes "lb_inv lb" "buf lb \<noteq> []"
  defines "i0 \<equiv> (if cursor lb > 0 then cursor lb - 1 else cursor lb)"
  shows "\<exists>j. skipSpacesBack (buf lb) i0 = Inr j \<and> 0 \<le> j \<and> j \<le> i0
     \<and> at (buf lb) j = Inr (buf lb ! nat j)
     \<and> (findSpaceBack (buf lb) j = Inr None
         \<or> (\<exists>k. findSpaceBack (buf lb) j = Inr (Some k) \<and> 0 < k \<and> k + 1 \<le> cursor lb))"
proof -
  have r: "0 \<le> i0" "i0 < int (length (buf lb))" "cursor lb > 0 \<longrightarrow> i0 = cursor lb - 1"
    "\<not> cursor lb > 0 \<longrightarrow> i0 = 0"
    using assms(1,2) unfolding lb_inv_def i0_def by auto
  from skipSpacesBack_ok [OF r(1,2)] obtain j where
    j: "skipSpacesBack (buf lb) i0 = Inr j" "0 \<le> j" "j \<le> i0" by blast
  have a: "at (buf lb) j = Inr (buf lb ! nat j)" using j r by (simp add: at_def)
  have "j < int (length (buf lb))" using j r by simp
  from findSpaceBack_ok [OF j(2) this]
  have "findSpaceBack (buf lb) j = Inr None
         \<or> (\<exists>k. findSpaceBack (buf lb) j = Inr (Some k) \<and> 0 < k \<and> k + 1 \<le> cursor lb)"
    using j r by (cases "cursor lb > 0") auto
  then show ?thesis using j a by blast
qed

lemma WordBackspace_inv:
  assumes "lb_inv lb" "buf lb \<noteq> []"
  shows "\<exists>n lb'. WordBackspace lb = Inr (n, lb') \<and> lb_inv lb'"
proof -
  from back_scan_start [OF assms] obtain j where
    j: "skipSpacesBack (buf lb) (if cursor lb > 0 then cursor lb - 1 else cursor lb) = Inr j"
    and a: "at (buf lb) j = Inr (buf lb ! nat j)"
    and f: "findSpaceBack (buf lb) j = Inr None
         \<or> (\<exists>k. findSpaceBack (buf lb) j = Inr (Some k) \<and> 0 < k \<and> k + 1 \<le> cursor lb)"
    by blast
  have w: "WordBackspace lb =
      (if buf lb ! nat j \<noteq> SPACE
       then (case findSpaceBack (buf lb) j of
               Inl x \<Rightarrow> Inl x
             | Inr None \<Rightarrow> DeleteRange lb 0 (cursor lb)
             | Inr (Some k) \<Rightarrow> DeleteRange lb (k + 1) (cursor lb))
       else DeleteRange lb 0 (cursor lb))"
    by (simp only: WordBackspace_def Let_def j andThen_def sum.case a)
  have "\<exists>b e. WordBackspace lb = DeleteRange lb b e"
  proof (cases "buf lb ! nat j \<noteq> SPACE")
    case False
    then show ?thesis unfolding w by simp blast
  next
    case True
    from f show ?thesis
    proof (elim disjE exE conjE)
      assume "findSpaceBack (buf lb) j = Inr None"
      then show ?thesis unfolding w using True by simp blast
    next
      fix k assume "findSpaceBack (buf lb) j = Inr (Some k)"
      then show ?thesis unfolding w using True by simp blast
    qed
  qed
  then show ?thesis using DeleteRange_inv [OF assms(1)] by metis
qed

lemma WordBackward_inv:
  assumes "lb_inv lb" "buf lb \<noteq> []"
  shows "\<exists>lb'. WordBackward lb = Inr lb' \<and> lb_inv lb'"
proof -
  from back_scan_start [OF assms] obtain j where
    j: "skipSpacesBack (buf lb) (if cursor lb > 0 then cursor lb - 1 else cursor lb) = Inr j"
    and a: "at (buf lb) j = Inr (buf lb ! nat j)"
    and f: "findSpaceBack (buf lb) j = Inr None
         \<or> (\<exists>k. findSpaceBack (buf lb) j = Inr (Some k) \<and> 0 < k \<and> k + 1 \<le> cursor lb)"
    by blast
  have w: "WordBackward lb =
      (if buf lb ! nat j \<noteq> SPACE
       then (case findSpaceBack (buf lb) j of
               Inl x \<Rightarrow> Inl x
             | Inr None \<Rightarrow> Inr (lb\<lparr>cursor := 0\<rparr>)
             | Inr (Some k) \<Rightarrow> Inr (lb\<lparr>cursor := k + 1\<rparr>))
       else Inr (lb\<lparr>cursor := 0\<rparr>))"
    by (simp only: WordBackward_def Let_def j andThen_def sum.case a)
  have c0: "0 \<le> cursor lb" using assms(1) by (simp add: lb_inv_def)
  have "\<exists>c. 0 \<le> c \<and> c \<le> cursor lb \<and> WordBackward lb = Inr (lb\<lparr>cursor := c\<rparr>)"
  proof (cases "buf lb ! nat j \<noteq> SPACE")
    case False
    then have "WordBackward lb = Inr (lb\<lparr>cursor := 0\<rparr>)" unfolding w by simp
    then show ?thesis using c0 by blast
  next
    case True
    from f show ?thesis
    proof (elim disjE exE conjE)
      assume "findSpaceBack (buf lb) j = Inr None"
      then have "WordBackward lb = Inr (lb\<lparr>cursor := 0\<rparr>)" unfolding w using True by simp
      then show ?thesis using c0 by blast
    next
      fix k assume "findSpaceBack (buf lb) j = Inr (Some k)" "0 < k" "k + 1 \<le> cursor lb"
      then have "WordBackward lb = Inr (lb\<lparr>cursor := k + 1\<rparr>)" "0 \<le> k + 1" "k + 1 \<le> cursor lb"
        unfolding w using True by simp_all
      then show ?thesis by blast
    qed
  qed
  then obtain c where "0 \<le> c" "c \<le> cursor lb" "WordBackward lb = Inr (lb\<lparr>cursor := c\<rparr>)" by blast
  moreover from this have "lb_inv (lb\<lparr>cursor := c\<rparr>)" using assms(1) by (simp add: lb_inv_def)
  ultimately show ?thesis by blast
qed

lemma fwd_scan:
  assumes "lb_inv lb" "0 \<le> i0" "i0 \<le> cursor lb"
  shows "\<exists>j. skipSpacesFwd (buf lb) (length_lb lb) i0 = Inr j
     \<and> (findSpaceFwd (buf lb) (length_lb lb) j = Inr None
         \<or> (\<exists>k. findSpaceFwd (buf lb) (length_lb lb) j = Inr (Some k) \<and> i0 \<le> k \<and> k < length_lb lb))"
proof -
  have l: "length_lb lb \<le> int (length (buf lb))" using assms(1) by (simp add: lb_inv_def)
  from skipSpacesFwd_ok [OF assms(2) l] obtain j where
    j: "skipSpacesFwd (buf lb) (length_lb lb) i0 = Inr j" "i0 \<le> j" by blast
  then have "0 \<le> j" using assms(2) by simp
  from findSpaceFwd_ok [OF this l] j show ?thesis by fastforce
qed

lemma WordForward_inv:
  assumes "lb_inv lb"
  shows "\<exists>lb'. WordForward lb = Inr lb' \<and> lb_inv lb'"
proof -
  have c: "0 \<le> cursor lb" using assms by (simp add: lb_inv_def)
  from fwd_scan [OF assms c order_refl] obtain j where
    j: "skipSpacesFwd (buf lb) (length_lb lb) (cursor lb) = Inr j"
    and f: "findSpaceFwd (buf lb) (length_lb lb) j = Inr None
         \<or> (\<exists>k. findSpaceFwd (buf lb) (length_lb lb) j = Inr (Some k) \<and> cursor lb \<le> k \<and> k < length_lb lb)"
    by blast
  have w: "WordForward lb =
      (case findSpaceFwd (buf lb) (length_lb lb) j of
         Inl x \<Rightarrow> Inl x
       | Inr None \<Rightarrow> Inr (lb\<lparr>cursor := length_lb lb\<rparr>)
       | Inr (Some k) \<Rightarrow> Inr (lb\<lparr>cursor := k\<rparr>))"
    by (simp only: WordForward_def j andThen_def sum.case)
  have l0: "0 \<le> length_lb lb" using assms by (simp add: lb_inv_def)
  from f have "\<exists>c. 0 \<le> c \<and> c \<le> length_lb lb \<and> WordForward lb = Inr (lb\<lparr>cursor := c\<rparr>)"
  proof (elim disjE exE conjE)
    assume "findSpaceFwd (buf lb) (length_lb lb) j = Inr None"
    then have "WordForward lb = Inr (lb\<lparr>cursor := length_lb lb\<rparr>)" unfolding w by simp
    then show ?thesis using l0 by blast
  next
    fix k assume "findSpaceFwd (buf lb) (length_lb lb) j = Inr (Some k)" "cursor lb \<le> k" "k < length_lb lb"
    then have "WordForward lb = Inr (lb\<lparr>cursor := k\<rparr>)" "0 \<le> k" "k \<le> length_lb lb"
      unfolding w using c by simp_all
    then show ?thesis by blast
  qed
  then obtain c where "0 \<le> c" "c \<le> length_lb lb" "WordForward lb = Inr (lb\<lparr>cursor := c\<rparr>)" by blast
  moreover from this have "lb_inv (lb\<lparr>cursor := c\<rparr>)" using assms(1) by (simp add: lb_inv_def)
  ultimately show ?thesis by blast
qed

lemma WordDelete_inv:
  assumes "lb_inv lb" "cursor lb \<noteq> 0"
  shows "\<exists>n lb'. WordDelete lb = Inr (n, lb') \<and> lb_inv lb'"
proof -
  have c: "0 \<le> cursor lb - 1" "cursor lb - 1 \<le> cursor lb" using assms by (simp_all add: lb_inv_def)
  from fwd_scan [OF assms(1) c] obtain j where
    j: "skipSpacesFwd (buf lb) (length_lb lb) (cursor lb - 1) = Inr j"
    and f: "findSpaceFwd (buf lb) (length_lb lb) j = Inr None
         \<or> (\<exists>k. findSpaceFwd (buf lb) (length_lb lb) j = Inr (Some k) \<and> cursor lb - 1 \<le> k \<and> k < length_lb lb)"
    by blast
  have w: "WordDelete lb =
      (case findSpaceFwd (buf lb) (length_lb lb) j of
         Inl x \<Rightarrow> Inl x
       | Inr None \<Rightarrow> Inr (0, lb)
       | Inr (Some k) \<Rightarrow> DeleteRange lb (cursor lb) k)"
    by (simp only: WordDelete_def j andThen_def sum.case)
  from f have "WordDelete lb = Inr (0, lb) \<or> (\<exists>b e. WordDelete lb = DeleteRange lb b e)"
  proof (elim disjE exE conjE)
    assume "findSpaceFwd (buf lb) (length_lb lb) j = Inr None"
    then show ?thesis unfolding w by simp
  next
    fix k assume "findSpaceFwd (buf lb) (length_lb lb) j = Inr (Some k)"
    then have "WordDelete lb = DeleteRange lb (cursor lb) k" unfolding w by simp
    then show ?thesis by blast
  qed
  then show ?thesis using DeleteRange_inv [OF assms(1)] assms(1) by metis
qed

lemma WordDelete_panics:
  assumes "cursor lb = 0" "0 \<le> length_lb lb"
  shows "WordDelete lb = Inl IndexOutOfRange"
proof -
  have "skipSpacesFwd (buf lb) (length_lb lb) (- 1) = Inl IndexOutOfRange"
    using assms(2) by (subst skipSpacesFwd.simps) (simp add: at_def)
  then show ?thesis unfolding WordDelete_def by (simp add: assms(1) andThen_def)
qed

lemma back_scan_panics:
  assumes "lb_inv lb" "buf lb = []"
  shows "WordBackspace lb = Inl IndexOutOfRange" "WordBackward lb = Inl IndexOutOfRange"
proof -
  have c: "cursor lb = 0" using assms by (simp add: lb_inv_def)
  have s: "skipSpacesBack [] 0 = Inr 0" by (subst skipSpacesBack.simps) simp
  show "WordBackspace lb = Inl IndexOutOfRange"
    unfolding WordBackspace_def Let_def by (simp add: c assms(2) s andThen_def at_def)
  show "WordBackward lb = Inl IndexOutOfRange"
    unfolding WordBackward_def Let_def by (simp add: c assms(2) s andThen_def at_def)
qed


lemma reload_line:
  assumes "lb_inv lb"
  shows "\<exists>lb'. InsertBytes (lb\<lparr>historyIndex := i, length_lb := 0, cursor := 0\<rparr>) line = Inr lb'
     \<and> lb_inv lb' \<and> content lb' = line \<and> historyIndex lb' = i \<and> history lb' = history lb
     \<and> length_lb lb' = int (length line) \<and> cursor lb' = int (length line)
     \<and> yanked lb' = yanked lb"
proof -
  let ?lb = "lb\<lparr>historyIndex := i, length_lb := 0, cursor := 0\<rparr>"
  have inv: "lb_inv ?lb" using assms by (simp add: lb_inv_def)
  have c: "content ?lb = []" by (simp add: content_def)
  from InsertBytes_fields [OF inv, of line] show ?thesis unfolding c by auto
qed

lemma PrevInHistory_nil: "history lb = None \<Longrightarrow> PrevInHistory lb = Inr (length_lb lb, lb)"
  by (simp add: PrevInHistory_def)

lemma NextInHistory_nil: "history lb = None \<Longrightarrow> NextInHistory lb = Inr (length_lb lb, lb)"
  by (simp add: NextInHistory_def)

lemma PrevInHistory_pinned:
  assumes "history lb = Some h"
    and "(if historyIndex lb < 0 then int (length h) - 1 else historyIndex lb - 1) < 0"
  shows "PrevInHistory lb = Inr (length_lb lb, lb\<lparr>historyIndex := 0\<rparr>)"
  using assms unfolding PrevInHistory_def Let_def by (simp split: if_splits)

lemma PrevInHistory_loads:
  assumes "lb_inv lb" "history lb = Some h"
    and i: "i = (if historyIndex lb < 0 then int (length h) - 1 else historyIndex lb - 1)"
    and r: "0 \<le> i" "i < int (length h)"
  shows "\<exists>n lb'. PrevInHistory lb = Inr (n, lb') \<and> lb_inv lb' \<and> content lb' = h ! nat i
     \<and> historyIndex lb' = i \<and> history lb' = Some h"
proof -
  from reload_line [OF assms(1), of i "h ! nat i"] obtain lb' where
    ib: "InsertBytes (lb\<lparr>historyIndex := i, length_lb := 0, cursor := 0\<rparr>) (h ! nat i) = Inr lb'"
    and f: "lb_inv lb'" "content lb' = h ! nat i" "historyIndex lb' = i" "history lb' = history lb"
    by blast
  have a: "at h i = Inr (h ! nat i)" using r by (simp add: at_def)
  have "\<exists>n. PrevInHistory lb = Inr (n, lb')"
  proof (cases "historyIndex lb < 0")
    case True
    then have i': "int (length h) - 1 = i" using i by simp
    show ?thesis unfolding PrevInHistory_def Let_def
      using True r by (simp add: assms(2) i' a ib andThen_def)
  next
    case False
    then have i': "historyIndex lb - 1 = i" using i by simp
    show ?thesis unfolding PrevInHistory_def Let_def
      using False r by (simp add: assms(2) i' a ib andThen_def)
  qed
  then show ?thesis using f assms(2) by auto
qed

lemma NextInHistory_idle:
  assumes "history lb = Some h" "historyIndex lb < 0 \<or> \<not> historyIndex lb + 1 < int (length h)"
  shows "NextInHistory lb = Inr (length_lb lb, lb)"
  using assms unfolding NextInHistory_def Let_def by auto

lemma NextInHistory_loads:
  assumes "lb_inv lb" "history lb = Some h"
    and r: "0 \<le> historyIndex lb" "historyIndex lb + 1 < int (length h)"
  shows "\<exists>n lb'. NextInHistory lb = Inr (n, lb') \<and> lb_inv lb'
     \<and> content lb' = h ! nat (historyIndex lb + 1)
     \<and> historyIndex lb' = historyIndex lb + 1 \<and> history lb' = Some h"
proof -
  let ?i = "historyIndex lb + 1"
  from reload_line [OF assms(1), of ?i "h ! nat ?i"] obtain lb' where
    ib: "InsertBytes (lb\<lparr>historyIndex := ?i, length_lb := 0, cursor := 0\<rparr>) (h ! nat ?i) = Inr lb'"
    and f: "lb_inv lb'" "content lb' = h ! nat ?i" "historyIndex lb' = ?i" "history lb' = history lb"
    by blast
  have a: "at h ?i = Inr (h ! nat ?i)" using r by (simp add: at_def)
  have "\<exists>n. NextInHistory lb = Inr (n, lb')"
    unfolding NextInHistory_def Let_def
    using r by (simp add: assms(2) a ib andThen_def)
  then show ?thesis using f assms(2) by auto
qed


lemma PrevInHistory_inv:
  assumes "lb_inv lb" "\<not> panics OpPrevInHistory lb"
  shows "\<exists>n lb'. PrevInHistory lb = Inr (n, lb') \<and> lb_inv lb'"
proof (cases "history lb")
  case None
  then show ?thesis using assms(1) PrevInHistory_nil by blast
next
  case (Some h)
  define i where "i = (if historyIndex lb < 0 then int (length h) - 1 else historyIndex lb - 1)"
  show ?thesis
  proof (cases "i < 0")
    case True
    then have "PrevInHistory lb = Inr (length_lb lb, lb\<lparr>historyIndex := 0\<rparr>)"
      using PrevInHistory_pinned [OF Some] unfolding i_def by simp
    moreover have "lb_inv (lb\<lparr>historyIndex := 0\<rparr>)" using assms(1) by (simp add: lb_inv_def)
    ultimately show ?thesis by blast
  next
    case False
    have "i < int (length h)" using assms(2) Some unfolding i_def by (simp split: if_splits)
    from PrevInHistory_loads [OF assms(1) Some i_def _ this] False show ?thesis by force
  qed
qed

lemma PrevInHistory_panics:
  assumes "panics OpPrevInHistory lb"
  shows "PrevInHistory lb = Inl IndexOutOfRange"
proof -
  from assms obtain h where h: "history lb = Some h" "historyIndex lb > int (length h)"
    by (auto split: option.splits)
  then have "at h (historyIndex lb - 1) = Inl IndexOutOfRange" by (simp add: at_def)
  then show ?thesis using h unfolding PrevInHistory_def Let_def by (simp add: andThen_def)
qed

lemma NextInHistory_inv:
  assumes "lb_inv lb"
  shows "\<exists>n lb'. NextInHistory lb = Inr (n, lb') \<and> lb_inv lb'"
proof (cases "history lb")
  case None
  then show ?thesis using assms(1) NextInHistory_nil by blast
next
  case (Some h)
  show ?thesis
  proof (cases "historyIndex lb < 0 \<or> \<not> historyIndex lb + 1 < int (length h)")
    case True
    from NextInHistory_idle [OF Some True] assms show ?thesis by blast
  next
    case False
    then have "0 \<le> historyIndex lb" "historyIndex lb + 1 < int (length h)" by simp_all
    from NextInHistory_loads [OF assms Some this] show ?thesis by blast
  qed
qed

lemma apply_op_returns:
  assumes "lb_inv lb" "\<not> panics op lb"
  shows "\<exists>lb'. apply_op op lb = Inr lb' \<and> lb_inv lb'"
proof (cases op)
  case (OpInsert ch)
  then show ?thesis using Insert_fields [OF assms(1), of ch] by auto
next
  case (OpInsertBytes chs)
  then show ?thesis using InsertBytes_fields [OF assms(1), of chs] by auto
next
  case OpDelete
  then show ?thesis using Delete_inv [OF assms(1)] by (auto simp: andThen_def)
next
  case OpKillToEnd
  have "lb_inv (lb\<lparr>yanked := y, length_lb := cursor lb, yanking := False\<rparr>)" for y
    using assms(1) by (simp add: lb_inv_def)
  then show ?thesis using OpKillToEnd KillToEnd_effect [OF assms(1)] by (simp add: andThen_def)
next
  case (OpDeleteRange b e)
  then show ?thesis using DeleteRange_inv [OF assms(1), of b e] by (auto simp: andThen_def)
next
  case OpWordBackspace
  then show ?thesis using WordBackspace_inv [OF assms(1)] assms(2) by (auto simp: andThen_def)
next
  case OpWordDelete
  then show ?thesis using WordDelete_inv [OF assms(1)] assms(2) by (auto simp: andThen_def)
next
  case OpWordForward
  then show ?thesis using WordForward_inv [OF assms(1)] by auto
next
  case OpWordBackward
  then show ?thesis using WordBackward_inv [OF assms(1)] assms(2) by auto
next
  case OpYank
  then show ?thesis using Yank_effect [OF assms(1)] by (auto simp: andThen_def)
next
  case OpBackward
  then show ?thesis using assms(1) by (simp add: Backward_def Let_def lb_inv_def)
next
  case OpForward
  then show ?thesis using assms(1) by (simp add: Forward_def Let_def lb_inv_def)
next
  case OpBegin
  then show ?thesis using assms(1) by (simp add: Begin_def lb_inv_def)
next
  case OpEnd
  then show ?thesis using assms(1) by (simp add: End_def lb_inv_def)
next
  case OpClear
  then show ?thesis using assms(1) by (simp add: Clear_def lb_inv_def)
next
  case OpPrevInHistory
  then show ?thesis using PrevInHistory_inv [OF assms(1)] assms(2) by (auto simp: andThen_def)
next
  case OpNextInHistory
  then show ?thesis using NextInHistory_inv [OF assms(1)] by (auto simp: andThen_def)
next
  case (OpAddToHistory line)
  then show ?thesis using assms(1) by (simp add: AddToHistory_def lb_inv_def)
qed

lemma apply_op_panics:
  assumes "lb_inv lb" "panics op lb"
  shows "apply_op op lb = Inl IndexOutOfRange"
proof (cases op)
  case OpWordBackspace
  then show ?thesis using back_scan_panics(1) [OF assms(1)] assms(2) by (simp add: andThen_def)
next
  case OpWordDelete
  then show ?thesis using WordDelete_panics [of lb] assms by (simp add: andThen_def lb_inv_def)
next
  case OpWordBackward
  then show ?thesis using back_scan_panics(2) [OF assms(1)] assms(2) by simp
next
  case OpPrevInHistory
  then show ?thesis using PrevInHistory_panics assms(2) by (simp add: andThen_def)
qed (use assms(2) in simp_all)


lemma WordBackspace_span:
  "WordBackspace lb = andThen (WordBackward lb) (\<lambda>lb'. DeleteRange lb (cursor lb') (cursor lb))"
  by (simp add: WordBackspace_def WordBackward_def andThen_def Let_def split: sum.splits option.splits)

lemma KillToEnd_twice:
  assumes "lb_inv lb"
  shows "\<exists>lb1 lb2. KillToEnd lb = Inr (length_lb lb - cursor lb, lb1)
      \<and> yanked lb1 = (if yanking lb then yanked lb @ drop (nat (cursor lb)) (content lb)
                      else drop (nat (cursor lb)) (content lb))
      \<and> yanking lb1 = False
      \<and> KillToEnd lb1 = Inr (0, lb2) \<and> yanked lb2 = [] \<and> yanking lb2 = False"
proof -
  let ?y = "(if yanking lb then yanked lb @ drop (nat (cursor lb)) (content lb)
                      else drop (nat (cursor lb)) (content lb))"
  let ?lb1 = "lb\<lparr>yanked := ?y, length_lb := cursor lb, yanking := False\<rparr>"
  have k1: "KillToEnd lb = Inr (length_lb lb - cursor lb, ?lb1)"
    by (rule KillToEnd_effect [OF assms])
  have inv1: "lb_inv ?lb1" using assms by (simp add: lb_inv_def)
  have c1: "drop (nat (cursor ?lb1)) (content ?lb1) = []" by (simp add: content_def)
  let ?lb2 = "lb\<lparr>yanked := [], length_lb := cursor lb, yanking := False\<rparr>"
  have k2: "KillToEnd ?lb1 = Inr (0, ?lb2)"
    using KillToEnd_effect [OF inv1] unfolding c1 by simp
  have "yanked ?lb1 = ?y" "yanking ?lb1 = False" "yanked ?lb2 = []" "yanking ?lb2 = False"
    by simp_all
  with k1 k2 show ?thesis by blast
qed

section \<open>Rendering and bracket matching\<close>

lemma drawline_ok:
  assumes "0 \<le> length_lb lb" "length_lb lb \<le> int (length (buf lb))"
  shows "drawline p lb extra =
     Inr ([CHR 0x0D] @ p @ content lb @ replicate (nat extra) SPACE
          @ concat (replicate (nat (length_lb lb + extra - cursor lb)) cursorBackward))"
  unfolding drawline_def using String_content [OF assms] by (simp add: andThen_def)

lemma highlightLoop_restores:
  assumes "0 \<le> length_lb lb" "length_lb lb \<le> int (length (buf lb))" "i \<le> int (length (buf lb))"
  shows "\<exists>out. highlightLoop lb p chOpen chClose i count = Inr (lb, out)
     \<and> (out = [BEEP]
        \<or> (\<exists>j o1 o2. 0 \<le> j \<and> j < i \<and> at (buf lb) j = Inr chOpen
             \<and> drawline p (lb\<lparr>cursor := j\<rparr>) 0 = Inr o1 \<and> drawline p lb 0 = Inr o2
             \<and> out = o1 @ o2))
     \<and> (chOpen \<notin> set (take (nat i) (buf lb)) \<longrightarrow> out = [BEEP])"
  using assms
proof (induction lb p chOpen chClose i count rule: highlightLoop.induct)
  case (1 lb p chOpen chClose i count)
  show ?case
  proof (cases "i > 0")
    case False
    then show ?thesis by (subst highlightLoop.simps) simp
  next
    case True
    define c where "c = buf lb ! nat (i - 1)"
    have a: "at (buf lb) (i - 1) = Inr c" using True "1.prems" by (simp add: at_def c_def)
    have mem: "c \<in> set (take (nat i) (buf lb))"
    proof -
      have "nat (i - 1) < length (take (nat i) (buf lb))" using True "1.prems" by simp
      then have "take (nat i) (buf lb) ! nat (i - 1) \<in> set (take (nat i) (buf lb))"
        by (rule nth_mem)
      moreover have "take (nat i) (buf lb) ! nat (i - 1) = c" using True by (simp add: c_def)
      ultimately show ?thesis by simp
    qed
    have sub: "set (take (nat (i - 1)) (buf lb)) \<subseteq> set (take (nat i) (buf lb))"
      by (rule set_take_subset_set_take) simp
    have bound: "i - 1 \<le> int (length (buf lb))" using "1.prems" by simp
    show ?thesis
    proof (cases "c = chOpen")
      case is_open: True
      show ?thesis
      proof (cases "count - 1 = 0")
        case True
        obtain o1 o2 where d1: "drawline p (lb\<lparr>cursor := i - 1\<rparr>) 0 = Inr o1"
          and d2: "drawline p lb 0 = Inr o2"
          using drawline_ok [of "lb\<lparr>cursor := i - 1\<rparr>" p 0] drawline_ok [of lb p 0] "1.prems" by simp
        have r: "highlightLoop lb p chOpen chClose i count = Inr (lb, o1 @ o2)"
          using \<open>i > 0\<close> a is_open True d1 d2
          by (subst highlightLoop.simps) (simp add: Let_def andThen_def)
        have "0 \<le> i - 1" "i - 1 < i" "at (buf lb) (i - 1) = Inr chOpen"
          using \<open>i > 0\<close> a is_open by simp_all
        then have "\<exists>j o1' o2'. 0 \<le> j \<and> j < i \<and> at (buf lb) j = Inr chOpen
             \<and> drawline p (lb\<lparr>cursor := j\<rparr>) 0 = Inr o1' \<and> drawline p lb 0 = Inr o2'
             \<and> o1 @ o2 = o1' @ o2'" using d1 d2 by blast
        then show ?thesis using r mem is_open by auto
      next
        case False
        from "1.IH"(1) [OF \<open>i > 0\<close> a is_open False "1.prems"(1,2) bound]
        obtain out where
          r: "highlightLoop lb p chOpen chClose (i - 1) (count - 1) = Inr (lb, out)"
          and o: "out = [BEEP]
            \<or> (\<exists>j o1 o2. 0 \<le> j \<and> j < i - 1 \<and> at (buf lb) j = Inr chOpen
             \<and> drawline p (lb\<lparr>cursor := j\<rparr>) 0 = Inr o1 \<and> drawline p lb 0 = Inr o2
             \<and> out = o1 @ o2)" by blast
        have e: "highlightLoop lb p chOpen chClose i count
            = highlightLoop lb p chOpen chClose (i - 1) (count - 1)"
          using \<open>i > 0\<close> a is_open False by (subst highlightLoop.simps) simp
        from o have "out = [BEEP]
            \<or> (\<exists>j o1 o2. 0 \<le> j \<and> j < i \<and> at (buf lb) j = Inr chOpen
             \<and> drawline p (lb\<lparr>cursor := j\<rparr>) 0 = Inr o1 \<and> drawline p lb 0 = Inr o2
             \<and> out = o1 @ o2)" by force
        then show ?thesis using r e mem is_open by auto
      qed
    next
      case False
      define count' where "count' = (if c = chClose then count + 1 else count)"
      have ih: "\<exists>out. highlightLoop lb p chOpen chClose (i - 1) count' = Inr (lb, out)
         \<and> (out = [BEEP]
            \<or> (\<exists>j o1 o2. 0 \<le> j \<and> j < i - 1 \<and> at (buf lb) j = Inr chOpen
                 \<and> drawline p (lb\<lparr>cursor := j\<rparr>) 0 = Inr o1 \<and> drawline p lb 0 = Inr o2
                 \<and> out = o1 @ o2))
         \<and> (chOpen \<notin> set (take (nat (i - 1)) (buf lb)) \<longrightarrow> out = [BEEP])"
      proof (cases "c = chClose")
        case True
        from "1.IH"(2) [OF \<open>i > 0\<close> a False True "1.prems"(1,2) bound] True
        show ?thesis by (simp add: count'_def)
      next
        case nc: False
        from "1.IH"(3) [OF \<open>i > 0\<close> a False nc "1.prems"(1,2) bound] nc
        show ?thesis by (simp add: count'_def)
      qed
      then obtain out where
        r: "highlightLoop lb p chOpen chClose (i - 1) count' = Inr (lb, out)"
        and o: "out = [BEEP]
            \<or> (\<exists>j o1 o2. 0 \<le> j \<and> j < i - 1 \<and> at (buf lb) j = Inr chOpen
                 \<and> drawline p (lb\<lparr>cursor := j\<rparr>) 0 = Inr o1 \<and> drawline p lb 0 = Inr o2
                 \<and> out = o1 @ o2)"
        and n: "chOpen \<notin> set (take (nat (i - 1)) (buf lb)) \<longrightarrow> out = [BEEP]" by blast
      have e: "highlightLoop lb p chOpen chClose i count
            = highlightLoop lb p chOpen chClose (i - 1) count'"
        using \<open>i > 0\<close> a False by (subst highlightLoop.simps) (simp add: count'_def)
      from o have o': "out = [BEEP]
            \<or> (\<exists>j o1 o2. 0 \<le> j \<and> j < i \<and> at (buf lb) j = Inr chOpen
             \<and> drawline p (lb\<lparr>cursor := j\<rparr>) 0 = Inr o1 \<and> drawline p lb 0 = Inr o2
             \<and> out = o1 @ o2)" by force
      from n sub have "chOpen \<notin> set (take (nat i) (buf lb)) \<longrightarrow> out = [BEEP]" by blast
      then show ?thesis using r e o' by auto
    qed
  qed
qed


lemma seg_Suc: "j \<le> k \<Longrightarrow> k < length b \<Longrightarrow> drop j (take (Suc k) b) = drop j (take k b) @ [b ! k]"
  by (simp add: take_Suc_conv_app_nth)

lemma drawline_nonempty:
  "drawline p lb extra = Inr out \<Longrightarrow> out \<noteq> []"
  by (auto simp: drawline_def andThen_def split: sum.splits)

lemma highlightLoop_beep_iff:
  assumes "0 \<le> length_lb lb" "length_lb lb \<le> int (length (buf lb))"
    "i \<le> length (buf lb)" "1 \<le> count"
  shows "\<exists>out. highlightLoop lb p chOpen chClose (int i) count = Inr (lb, out)
     \<and> ((out = [BEEP]) =
         (\<forall>j<i. int (opens (buf lb) chOpen j i) \<noteq> count + int (closes (buf lb) chOpen chClose j i)))"
  using assms(3,4)
proof (induction i arbitrary: count)
  case 0
  show ?case by (subst highlightLoop.simps) simp
next
  case (Suc k)
  let ?b = "buf lb"
  define c where "c = ?b ! k"
  have k: "k < length ?b" "k \<le> length ?b" using Suc.prems by simp_all
  have a: "at ?b (int (Suc k) - 1) = Inr c" using k by (simp add: at_def c_def)
  have pos: "int (Suc k) > 0" by simp
  have pred: "int (Suc k) - 1 = int k" by simp
  have op: "opens ?b chOpen j (Suc k) = opens ?b chOpen j k + (if c = chOpen then 1 else 0)"
    if "j \<le> k" for j
    using that k by (simp add: opens_def seg_Suc c_def)
  have cl: "closes ?b chOpen chClose j (Suc k)
      = closes ?b chOpen chClose j k + (if c \<noteq> chOpen \<and> c = chClose then 1 else 0)"
    if "j \<le> k" for j
    using that k by (simp add: closes_def seg_Suc c_def)
  have op0: "opens ?b chOpen k k = 0" and cl0: "closes ?b chOpen chClose k k = 0"
    by (simp_all add: opens_def closes_def)
  have split_all: "(\<forall>j<Suc k. P j) = ((\<forall>j<k. P j) \<and> P k)" for P
    by (auto simp: less_Suc_eq)
  show ?case
  proof (cases "c = chOpen")
    case is_open: True
    show ?thesis
    proof (cases "count - 1 = 0")
      case True
      obtain o1 o2 where d1: "drawline p (lb\<lparr>cursor := int k\<rparr>) 0 = Inr o1"
        and d2: "drawline p lb 0 = Inr o2"
        using drawline_ok [of "lb\<lparr>cursor := int k\<rparr>" p 0] drawline_ok [of lb p 0] assms(1,2) by simp
      have r: "highlightLoop lb p chOpen chClose (int (Suc k)) count = Inr (lb, o1 @ o2)"
        using pos a is_open True d1 d2
        by (subst highlightLoop.simps) (simp add: Let_def andThen_def)
      have "o1 \<noteq> []" "o2 \<noteq> []" using d1 d2 drawline_nonempty by blast+
      then have nb: "o1 @ o2 \<noteq> [BEEP]"
        by (metis append_eq_Cons_conv append_is_Nil_conv)
      have "int (opens ?b chOpen k (Suc k)) = count + int (closes ?b chOpen chClose k (Suc k))"
        using True is_open by (simp add: op cl op0 cl0)
      then have "\<not> (\<forall>j<Suc k. int (opens ?b chOpen j (Suc k))
            \<noteq> count + int (closes ?b chOpen chClose j (Suc k)))" by blast
      then show ?thesis using r nb by simp
    next
      case False
      then have c1: "1 \<le> count - 1" using Suc.prems by simp
      from Suc.IH [OF k(2) c1] obtain out where
        r: "highlightLoop lb p chOpen chClose (int k) (count - 1) = Inr (lb, out)"
        and i: "(out = [BEEP]) =
         (\<forall>j<k. int (opens ?b chOpen j k) \<noteq> count - 1 + int (closes ?b chOpen chClose j k))"
        by blast
      have e: "highlightLoop lb p chOpen chClose (int (Suc k)) count
            = highlightLoop lb p chOpen chClose (int k) (count - 1)"
        using pos a is_open False by (subst highlightLoop.simps) (simp add: pred)
      have "(\<forall>j<Suc k. int (opens ?b chOpen j (Suc k))
            \<noteq> count + int (closes ?b chOpen chClose j (Suc k)))
          = (\<forall>j<k. int (opens ?b chOpen j k) \<noteq> count - 1 + int (closes ?b chOpen chClose j k))"
        unfolding split_all using is_open False by (auto simp: op cl op0 cl0)
      then show ?thesis using r e i by simp
    qed
  next
    case False
    define count' where "count' = (if c = chClose then count + 1 else count)"
    have c1: "1 \<le> count'" using Suc.prems by (simp add: count'_def)
    from Suc.IH [OF k(2) c1] obtain out where
      r: "highlightLoop lb p chOpen chClose (int k) count' = Inr (lb, out)"
      and i: "(out = [BEEP]) =
         (\<forall>j<k. int (opens ?b chOpen j k) \<noteq> count' + int (closes ?b chOpen chClose j k))"
      by blast
    have e: "highlightLoop lb p chOpen chClose (int (Suc k)) count
            = highlightLoop lb p chOpen chClose (int k) count'"
      using pos a False by (subst highlightLoop.simps) (simp add: pred count'_def)
    have "(\<forall>j<Suc k. int (opens ?b chOpen j (Suc k))
            \<noteq> count + int (closes ?b chOpen chClose j (Suc k)))
          = (\<forall>j<k. int (opens ?b chOpen j k) \<noteq> count' + int (closes ?b chOpen chClose j k))"
      unfolding split_all using False Suc.prems by (auto simp: op cl op0 cl0 count'_def)
    then show ?thesis using r e i by simp
  qed
qed


section \<open>The loop\<close>

lemma RETURN_dispatch: "normalKey h s RETURN = returnKey h s"
  by (simp add: normalKey_def RETURN_def ESCAPE_def CTRL_D_def CTRL_A_def CTRL_E_def CTRL_F_def
      CTRL_B_def CTRL_C_def CTRL_K_def CTRL_Y_def CTRL_L_def CTRL_N_def CTRL_P_def TAB_def
      DELETE_def)

lemma returnKey_effect:
  assumes "0 \<le> length_lb (s_buf s)" "length_lb (s_buf s) \<le> int (length (buf (s_buf s)))"
  shows "\<exists>s'. returnKey h s = Inr (Continue s')
     \<and> history (s_buf s')
         = Some ((case history (s_buf s) of None \<Rightarrow> [] | Some hist \<Rightarrow> hist) @ [content (s_buf s)])
     \<and> historyIndex (s_buf s') = - 1
     \<and> length_lb (s_buf s') = 0 \<and> cursor (s_buf s') = 0
     \<and> (case Eval h (s_handler s) (content (s_buf s)) of
          ((result, more', err), hs) \<Rightarrow>
            s_calls s' = s_calls s @ CallEval (content (s_buf s))
                           # (if err = None \<and> more' then [] else [CallPrompt])
          \<and> s_out s' = s_out s @ (if IsEmpty (s_buf s) then [] else [NEWLINE])
                @ (case err of
                     Some e \<Rightarrow> ''*** '' @ Error e @ [NEWLINE] @ fst (Prompt h hs)
                   | None \<Rightarrow> if more' then [] else result @ [NEWLINE] @ fst (Prompt h hs)))"
proof -
  obtain result more' err hs where ev: "Eval h (s_handler s) (content (s_buf s)) = ((result, more', err), hs)"
    by (metis prod.exhaust)
  obtain p hs' where pr: "Prompt h hs = (p, hs')" by (metis prod.exhaust)
  define s1 where "s1 = (if \<not> IsEmpty (s_buf s) then putChar s NEWLINE else s)"
  have s1: "s_buf s1 = s_buf s" "s_handler s1 = s_handler s" "s_calls s1 = s_calls s"
    "s_out s1 = s_out s @ (if IsEmpty (s_buf s) then [] else [NEWLINE])"
    by (simp_all add: s1_def putChar_def)
  have str: "String (s_buf s1) = Inr (content (s_buf s))"
    using String_content [OF assms] s1 by simp
  show ?thesis
  proof (cases err)
    case (Some e)
    show ?thesis
      unfolding returnKey_def Let_def s1_def [symmetric] str andThen_def
      by (simp add: s1 ev pr Some newPrompt_def putString_def Clear_def AddToHistory_def)
  next
    case None
    show ?thesis
      unfolding returnKey_def Let_def s1_def [symmetric] str andThen_def
      by (simp add: s1 ev pr None newPrompt_def putString_def Clear_def AddToHistory_def)
  qed
qed

lemma loop_append_read_error:
  "loop h s rs = AwaitingInput s' \<Longrightarrow>
   loop h s (rs @ ReadError e # rest) = Returned (Some e) (callStop h s')"
proof (induction rs arbitrary: s)
  case Nil
  then show ?case by simp
next
  case (Cons r rs)
  obtain ch err where g: "getChar r = (ch, err)" by (metis prod.exhaust)
  show ?case
  proof (cases err)
    case (Some x)
    then show ?thesis using Cons.prems g by simp
  next
    case None
    show ?thesis
    proof (cases "if s_meta s then metaKey s ch else normalKey h s ch")
      case (Inl p)
      then show ?thesis using Cons.prems g None by simp
    next
      case (Inr c)
      show ?thesis
      proof (cases c)
        case (Continue s1)
        then have "loop h (s1\<lparr>s_lastChar := ch\<rparr>) rs = AwaitingInput s'"
          using Cons.prems g None Inr by simp
        from Cons.IH [OF this] show ?thesis using g None Inr Continue by simp
      next
        case (Return x s1)
        then show ?thesis using Cons.prems g None Inr by simp
      qed
    qed
  qed
qed

lemma REPL_returns_nil:
  "REPL h None hs0 reads \<noteq> Inr (Returned (Some e) s)"
  by (simp add: REPL_def split: outcome.splits)

section \<open>The claims about the edit buffer\<close>

text \<open>
  Claim C4. In a buffer with \<open>0 \<le> cursor \<le> length \<le> capacity\<close>, for all integers
  \<open>b\<close> and \<open>e\<close>: if \<open>b > length\<close> or \<open>e < 0\<close>, \<open>DeleteRange(b, e)\<close> returns 0 and
  leaves the buffer as it is. Otherwise \<open>b\<close> is clamped up to 0 and \<open>e\<close> down to
  \<open>length\<close>, and when the clamped range is not empty the bytes in it are removed, the
  bytes after it move left, the removed text replaces the yank register or, when the
  coalescing flag is set, is appended to it, the cursor becomes the clamped \<open>b\<close>, and
  the number of removed bytes is returned. The capacity stays.
\<close>

theorem DeleteRange_contract:
  assumes "lb_inv lb"
  shows "(b > length_lb lb \<or> e < 0 \<longrightarrow> DeleteRange lb b e = Inr (0, lb)) \<and>
    (\<not> (b > length_lb lb \<or> e < 0) \<and> max 0 b < min e (length_lb lb) \<longrightarrow>
       (let b' = max 0 b; e' = min e (length_lb lb);
            removed = take (nat (e' - b')) (drop (nat b') (content lb))
        in \<exists>bf. DeleteRange lb b e =
                   Inr (e' - b',
                        lb\<lparr>yanked := (if yanking lb then yanked lb @ removed else removed),
                           buf := bf, length_lb := length_lb lb - (e' - b'), cursor := b'\<rparr>)
                \<and> length bf = length (buf lb)
                \<and> take (nat (length_lb lb - (e' - b'))) bf
                    = take (nat b') (content lb) @ drop (nat e') (content lb)))"
proof (intro conjI impI)
  assume "b > length_lb lb \<or> e < 0"
  then show "DeleteRange lb b e = Inr (0, lb)"
    using assms by (simp add: DeleteRange_noop lb_inv_def)
next
  assume a: "\<not> (b > length_lb lb \<or> e < 0) \<and> max 0 b < min e (length_lb lb)"
  then have "min e (length_lb lb) - max 0 b > 0" by simp
  from DeleteRange_removes [OF assms _ this] a
  show "let b' = max 0 b; e' = min e (length_lb lb);
            removed = take (nat (e' - b')) (drop (nat b') (content lb))
        in \<exists>bf. DeleteRange lb b e =
                   Inr (e' - b',
                        lb\<lparr>yanked := (if yanking lb then yanked lb @ removed else removed),
                           buf := bf, length_lb := length_lb lb - (e' - b'), cursor := b'\<rparr>)
                \<and> length bf = length (buf lb)
                \<and> take (nat (length_lb lb - (e' - b'))) bf
                    = take (nat b') (content lb) @ drop (nat e') (content lb)"
    unfolding Let_def by blast
qed

theorem DeleteRange_contract_witness:
  "lb_inv \<lparr>length_lb = 5, cursor = 4, buf = ''ab cd'' @ replicate 3 (CHR 0x00), yanked = ''x'',
           yanking = True, history = None, historyIndex = - 1\<rparr>
   \<and> DeleteRange \<lparr>length_lb = 5, cursor = 4, buf = ''ab cd'' @ replicate 3 (CHR 0x00),
          yanked = ''x'', yanking = True, history = None, historyIndex = - 1\<rparr> 6 (- 1)
       = Inr (0, \<lparr>length_lb = 5, cursor = 4, buf = ''ab cd'' @ replicate 3 (CHR 0x00),
          yanked = ''x'', yanking = True, history = None, historyIndex = - 1\<rparr>)
   \<and> (\<exists>bf. DeleteRange \<lparr>length_lb = 5, cursor = 4, buf = ''ab cd'' @ replicate 3 (CHR 0x00),
          yanked = ''x'', yanking = True, history = None, historyIndex = - 1\<rparr> (- 2) 2
       = Inr (2, \<lparr>length_lb = 3, cursor = 0, buf = bf, yanked = ''xab'', yanking = True,
                  history = None, historyIndex = - 1\<rparr>)
       \<and> length bf = 8 \<and> take 3 bf = '' cd'')"
proof -
  let ?lb = "\<lparr>length_lb = 5, cursor = 4, buf = ''ab cd'' @ replicate 3 (CHR 0x00), yanked = ''x'',
           yanking = True, history = None, historyIndex = - 1\<rparr>"
  have h: "lb_inv ?lb" by (simp add: lb_inv_def)
  from DeleteRange_contract [OF h, of 6 "- 1"]
  have n: "DeleteRange ?lb 6 (- 1) = Inr (0, ?lb)" by simp
  from DeleteRange_contract [OF h, of "- 2" 2]
  have r: "\<exists>bf. DeleteRange ?lb (- 2) 2
       = Inr (2, \<lparr>length_lb = 3, cursor = 0, buf = bf, yanked = ''xab'', yanking = True,
                  history = None, historyIndex = - 1\<rparr>)
       \<and> length bf = 8 \<and> take 3 bf = '' cd''"
    by (simp add: Let_def content_def)
  show ?thesis using h n r by blast
qed

text \<open>
  Claim C3, as the code has it. In a buffer with \<open>0 \<le> cursor \<le> length \<le> capacity\<close>
  whose coalescing flag is clear or whose yank register is empty, \<open>KillToEnd()\<close>
  followed at once by \<open>Yank()\<close> returns normally and restores the text \<open>String()\<close> and
  the length to their values before the kill.
\<close>

theorem KillToEnd_Yank_restores:
  assumes "lb_inv lb" and "\<not> yanking lb \<or> yanked lb = []"
  shows "\<exists>n lb1 m lb2. KillToEnd lb = Inr (n, lb1) \<and> Yank lb1 = Inr (m, lb2)
     \<and> String lb2 = String lb \<and> length_lb lb2 = length_lb lb"
  using assms by (rule kill_yank_roundtrip)

theorem KillToEnd_Yank_restores_witness:
  "lb_inv \<lparr>length_lb = 5, cursor = 3, buf = ''ab cd'' @ replicate 3 (CHR 0x00), yanked = ''x'',
           yanking = False, history = None, historyIndex = - 1\<rparr>
   \<and> \<not> yanking \<lparr>length_lb = 5, cursor = 3, buf = ''ab cd'' @ replicate 3 (CHR 0x00),
           yanked = ''x'', yanking = False, history = None, historyIndex = - 1\<rparr>
   \<and> (\<exists>n lb1 m lb2.
         KillToEnd \<lparr>length_lb = 5, cursor = 3, buf = ''ab cd'' @ replicate 3 (CHR 0x00),
           yanked = ''x'', yanking = False, history = None, historyIndex = - 1\<rparr> = Inr (n, lb1)
       \<and> Yank lb1 = Inr (m, lb2) \<and> String lb2 = Inr ''ab cd'' \<and> length_lb lb2 = 5)"
proof -
  let ?lb = "\<lparr>length_lb = 5, cursor = 3, buf = ''ab cd'' @ replicate 3 (CHR 0x00), yanked = ''x'',
           yanking = False, history = None, historyIndex = - 1\<rparr>"
  have h: "lb_inv ?lb" by (simp add: lb_inv_def)
  have r: "\<not> yanking ?lb \<or> yanked ?lb = []" by simp
  have s: "String ?lb = Inr ''ab cd''" by (simp add: String_def slice_def)
  show ?thesis using h r KillToEnd_Yank_restores [OF h r] unfolding s by simp
qed

text \<open>
  Claim C3 as stated fails where the coalescing flag is set and the register is not
  empty. Such a state is reached from a fresh buffer: type \<open>ab cd\<close>, yank the empty
  register (the flag is set and nothing is inserted), delete the word \<open>cd\<close> backwards
  (\<open>DeleteRange\<close> appends it to the register and leaves the flag set). The buffer then
  holds \<open>ab \<close> with the cursor at its end; \<open>KillToEnd()\<close> kills nothing and keeps the
  register \<open>cd\<close>, and \<open>Yank()\<close> inserts it: the text is \<open>ab cd\<close>, of length 5 and not 3.
\<close>

theorem KillToEnd_Yank_counterexample:
  "InsertBytes (newLineBuf 8) ''ab cd''
     = Inr \<lparr>length_lb = 5, cursor = 5, buf = ''ab cd'' @ replicate 3 (CHR 0x00), yanked = [],
            yanking = False, history = None, historyIndex = - 1\<rparr>
   \<and> Yank \<lparr>length_lb = 5, cursor = 5, buf = ''ab cd'' @ replicate 3 (CHR 0x00), yanked = [],
            yanking = False, history = None, historyIndex = - 1\<rparr>
     = Inr (0, \<lparr>length_lb = 5, cursor = 5, buf = ''ab cd'' @ replicate 3 (CHR 0x00),
            yanked = [], yanking = True, history = None, historyIndex = - 1\<rparr>)
   \<and> WordBackspace \<lparr>length_lb = 5, cursor = 5, buf = ''ab cd'' @ replicate 3 (CHR 0x00),
            yanked = [], yanking = True, history = None, historyIndex = - 1\<rparr>
     = Inr (2, \<lparr>length_lb = 3, cursor = 3, buf = ''ab '' @ replicate 5 (CHR 0x00),
            yanked = ''cd'', yanking = True, history = None, historyIndex = - 1\<rparr>)
   \<and> lb_inv \<lparr>length_lb = 3, cursor = 3, buf = ''ab '' @ replicate 5 (CHR 0x00),
            yanked = ''cd'', yanking = True, history = None, historyIndex = - 1\<rparr>
   \<and> String \<lparr>length_lb = 3, cursor = 3, buf = ''ab '' @ replicate 5 (CHR 0x00),
            yanked = ''cd'', yanking = True, history = None, historyIndex = - 1\<rparr> = Inr ''ab ''
   \<and> KillToEnd \<lparr>length_lb = 3, cursor = 3, buf = ''ab '' @ replicate 5 (CHR 0x00),
            yanked = ''cd'', yanking = True, history = None, historyIndex = - 1\<rparr>
     = Inr (0, \<lparr>length_lb = 3, cursor = 3, buf = ''ab '' @ replicate 5 (CHR 0x00),
            yanked = ''cd'', yanking = False, history = None, historyIndex = - 1\<rparr>)
   \<and> Yank \<lparr>length_lb = 3, cursor = 3, buf = ''ab '' @ replicate 5 (CHR 0x00),
            yanked = ''cd'', yanking = False, history = None, historyIndex = - 1\<rparr>
     = Inr (2, \<lparr>length_lb = 5, cursor = 5, buf = ''ab cd'' @ replicate 3 (CHR 0x00),
            yanked = ''cd'', yanking = False, history = None, historyIndex = - 1\<rparr>)
   \<and> String \<lparr>length_lb = 5, cursor = 5, buf = ''ab cd'' @ replicate 3 (CHR 0x00),
            yanked = ''cd'', yanking = False, history = None, historyIndex = - 1\<rparr> = Inr ''ab cd''
   \<and> ''ab cd'' \<noteq> ''ab ''"
  by code_simp


text \<open>
  Claim C1. Each of the eighteen operations of the edit buffer, applied to a buffer with
  \<open>0 \<le> cursor \<le> length \<le> capacity\<close>, leaves a buffer with
  \<open>0 \<le> cursor \<le> length \<le> capacity\<close>. An operation returns, and leaves a
  state, in every state but those that \<open>panics\<close> lists; there it stops with an index
  out of range.
\<close>

theorem edit_ops_preserve_invariant:
  assumes "lb_inv lb"
  shows "case apply_op op lb of
           Inr lb' \<Rightarrow> lb_inv lb' \<and> \<not> panics op lb
         | Inl e \<Rightarrow> panics op lb"
proof (cases "panics op lb")
  case True
  then show ?thesis using apply_op_panics [OF assms True] by simp
next
  case False
  from apply_op_returns [OF assms False] obtain lb' where
    "apply_op op lb = Inr lb'" "lb_inv lb'" by blast
  then show ?thesis using False by simp
qed

theorem edit_ops_preserve_invariant_witness:
  "lb_inv \<lparr>length_lb = 5, cursor = 5, buf = ''ab cd'' @ replicate 3 (CHR 0x00), yanked = [],
           yanking = False, history = None, historyIndex = - 1\<rparr>
   \<and> apply_op OpWordBackspace
        \<lparr>length_lb = 5, cursor = 5, buf = ''ab cd'' @ replicate 3 (CHR 0x00), yanked = [],
         yanking = False, history = None, historyIndex = - 1\<rparr>
      = Inr \<lparr>length_lb = 3, cursor = 3, buf = ''ab '' @ replicate 5 (CHR 0x00), yanked = ''cd'',
             yanking = False, history = None, historyIndex = - 1\<rparr>
   \<and> lb_inv \<lparr>length_lb = 3, cursor = 3, buf = ''ab '' @ replicate 5 (CHR 0x00), yanked = ''cd'',
             yanking = False, history = None, historyIndex = - 1\<rparr>"
proof -
  let ?lb = "\<lparr>length_lb = 5, cursor = 5, buf = ''ab cd'' @ replicate 3 (CHR 0x00), yanked = [],
           yanking = False, history = None, historyIndex = - 1\<rparr>"
  let ?lb' = "\<lparr>length_lb = 3, cursor = 3, buf = ''ab '' @ replicate 5 (CHR 0x00),
           yanked = ''cd'', yanking = False, history = None, historyIndex = - 1\<rparr>"
  have h: "lb_inv ?lb" by (simp add: lb_inv_def)
  have e: "apply_op OpWordBackspace ?lb = Inr ?lb'" by code_simp
  from edit_ops_preserve_invariant [OF h, of OpWordBackspace]
  have "lb_inv ?lb'" unfolding e by simp
  with h e show ?thesis by blast
qed

text \<open>
  Claim C2, as the code has it. \<open>KillToEnd()\<close> leaves the coalescing flag clear. It
  appends the killed span to the yank register when the flag is set on entry and
  replaces the register otherwise. So of two consecutive \<open>KillToEnd()\<close> calls the
  second, which kills the empty span at the end of the text, replaces the register:
  the register is empty afterwards.
\<close>

theorem KillToEnd_leaves_flag_clear:
  assumes "lb_inv lb"
  shows "\<exists>lb1 lb2. KillToEnd lb = Inr (length_lb lb - cursor lb, lb1)
      \<and> yanked lb1 = (if yanking lb then yanked lb @ drop (nat (cursor lb)) (content lb)
                      else drop (nat (cursor lb)) (content lb))
      \<and> yanking lb1 = False
      \<and> KillToEnd lb1 = Inr (0, lb2) \<and> yanked lb2 = [] \<and> yanking lb2 = False"
  using assms by (rule KillToEnd_twice)

theorem KillToEnd_leaves_flag_clear_witness:
  "lb_inv \<lparr>length_lb = 2, cursor = 0, buf = ''ab'' @ replicate 2 (CHR 0x00), yanked = [],
           yanking = False, history = None, historyIndex = - 1\<rparr>
   \<and> (\<exists>lb1 lb2.
         KillToEnd \<lparr>length_lb = 2, cursor = 0, buf = ''ab'' @ replicate 2 (CHR 0x00),
            yanked = [], yanking = False, history = None, historyIndex = - 1\<rparr> = Inr (2, lb1)
       \<and> yanked lb1 = ''ab'' \<and> yanking lb1 = False
       \<and> KillToEnd lb1 = Inr (0, lb2) \<and> yanked lb2 = [] \<and> yanking lb2 = False)"
proof -
  let ?lb = "\<lparr>length_lb = 2, cursor = 0, buf = ''ab'' @ replicate 2 (CHR 0x00), yanked = [],
           yanking = False, history = None, historyIndex = - 1\<rparr>"
  have h: "lb_inv ?lb" by (simp add: lb_inv_def)
  show ?thesis using h KillToEnd_leaves_flag_clear [OF h] by (simp add: content_def)
qed

text \<open>
  Claim C2 as stated fails. With \<open>ab\<close> in the buffer and the cursor at 0, the first
  \<open>KillToEnd()\<close> puts \<open>ab\<close> in the register and leaves the flag clear; the second
  kills nothing and leaves the register empty, not \<open>ab\<close>. \<open>Yank()\<close> of the register
  \<open>ab\<close> leaves the flag clear as well: each \<open>Insert\<close> it makes clears the flag.
\<close>

theorem coalescing_counterexample:
  "KillToEnd \<lparr>length_lb = 2, cursor = 0, buf = ''ab'' @ replicate 2 (CHR 0x00), yanked = [],
      yanking = False, history = None, historyIndex = - 1\<rparr>
    = Inr (2, \<lparr>length_lb = 0, cursor = 0, buf = ''ab'' @ replicate 2 (CHR 0x00), yanked = ''ab'',
      yanking = False, history = None, historyIndex = - 1\<rparr>)
  \<and> KillToEnd \<lparr>length_lb = 0, cursor = 0, buf = ''ab'' @ replicate 2 (CHR 0x00), yanked = ''ab'',
      yanking = False, history = None, historyIndex = - 1\<rparr>
    = Inr (0, \<lparr>length_lb = 0, cursor = 0, buf = ''ab'' @ replicate 2 (CHR 0x00), yanked = [],
      yanking = False, history = None, historyIndex = - 1\<rparr>)
  \<and> [] \<noteq> ''ab'' @ []
  \<and> Yank \<lparr>length_lb = 0, cursor = 0, buf = ''ab'' @ replicate 2 (CHR 0x00), yanked = ''ab'',
      yanking = False, history = None, historyIndex = - 1\<rparr>
    = Inr (2, \<lparr>length_lb = 2, cursor = 2, buf = ''ab'' @ replicate 2 (CHR 0x00), yanked = ''ab'',
      yanking = False, history = None, historyIndex = - 1\<rparr>)"
  by code_simp

text \<open>
  Claim C5 on the code. \<open>WordBackspace\<close> deletes exactly the span \<open>WordBackward\<close>
  scans (lemma \<open>WordBackspace_span\<close>). \<open>WordDelete\<close> does not delete the span
  \<open>WordForward\<close> scans. In \<open>ab cd\<close> with the cursor on \<open>c\<close>, \<open>WordForward\<close> moves to
  the end of the text, position 5, and \<open>WordDelete\<close> returns 0 and deletes nothing:
  its second loop finds no space and falls through to \<open>return 0\<close>. With the cursor
  on the space, position 2, \<open>WordForward\<close> moves to 5 again and \<open>WordDelete\<close>, whose
  scan begins at \<open>cursor - 1\<close>, stops at that space and deletes the empty range.
\<close>

theorem WordDelete_misses_scanned_span:
  "WordDelete
     \<lparr>length_lb = 5, cursor = 3, buf = ''ab cd'' @ replicate 3 (CHR 0x00), yanked = [],
      yanking = False, history = None, historyIndex = - 1\<rparr>
   = Inr (0, \<lparr>length_lb = 5, cursor = 3, buf = ''ab cd'' @ replicate 3 (CHR 0x00), yanked = [],
      yanking = False, history = None, historyIndex = - 1\<rparr>)
  \<and> WordForward
     \<lparr>length_lb = 5, cursor = 3, buf = ''ab cd'' @ replicate 3 (CHR 0x00), yanked = [],
      yanking = False, history = None, historyIndex = - 1\<rparr>
   = Inr \<lparr>length_lb = 5, cursor = 5, buf = ''ab cd'' @ replicate 3 (CHR 0x00), yanked = [],
      yanking = False, history = None, historyIndex = - 1\<rparr>
  \<and> WordDelete
     \<lparr>length_lb = 5, cursor = 2, buf = ''ab cd'' @ replicate 3 (CHR 0x00), yanked = [],
      yanking = False, history = None, historyIndex = - 1\<rparr>
   = Inr (0, \<lparr>length_lb = 5, cursor = 2, buf = ''ab cd'' @ replicate 3 (CHR 0x00), yanked = [],
      yanking = False, history = None, historyIndex = - 1\<rparr>)
  \<and> WordForward
     \<lparr>length_lb = 5, cursor = 2, buf = ''ab cd'' @ replicate 3 (CHR 0x00), yanked = [],
      yanking = False, history = None, historyIndex = - 1\<rparr>
   = Inr \<lparr>length_lb = 5, cursor = 5, buf = ''ab cd'' @ replicate 3 (CHR 0x00), yanked = [],
      yanking = False, history = None, historyIndex = - 1\<rparr>"
  by code_simp

text \<open>
  Claim C9 on the code. With the cursor at 0 the first loop of \<open>WordDelete\<close> begins
  at \<open>i = -1\<close>; \<open>-1 < lb.length\<close> holds, and \<open>lb.buf[-1]\<close> is read: the operation
  panics. Here the buffer holds \<open>ab\<close>.
\<close>

theorem WordDelete_reads_before_buffer:
  "lb_inv \<lparr>length_lb = 2, cursor = 0, buf = ''ab'' @ replicate 2 (CHR 0x00), yanked = [],
      yanking = False, history = None, historyIndex = - 1\<rparr>
   \<and> WordDelete
     \<lparr>length_lb = 2, cursor = 0, buf = ''ab'' @ replicate 2 (CHR 0x00), yanked = [],
      yanking = False, history = None, historyIndex = - 1\<rparr> = Inl IndexOutOfRange"
  by code_simp


text \<open>
  Claim C6, as the code has it. The lines \<open>a\<close>, \<open>b\<close>, \<open>c\<close> are added in order to the
  history of a fresh, empty buffer of capacity 1024. Three \<open>PrevInHistory()\<close> calls
  set the text to \<open>c\<close>, \<open>b\<close>, \<open>a\<close>; a fourth leaves \<open>a\<close>, the history cursor staying
  at 0. Three \<open>NextInHistory()\<close> calls then set the text to \<open>b\<close>, to \<open>c\<close>, and the
  third leaves the text \<open>c\<close> and the history cursor at 2, the newest entry: it does
  not go back to the value -1 that stands for "not browsing". The list gives the text
  and the history cursor after each of the ten operations.
\<close>

theorem history_browsing_trace:
  "trace_ops [OpAddToHistory ''a'', OpAddToHistory ''b'', OpAddToHistory ''c'',
              OpPrevInHistory, OpPrevInHistory, OpPrevInHistory, OpPrevInHistory,
              OpNextInHistory, OpNextInHistory, OpNextInHistory] (newLineBuf 1024)
   = Inr [([], - 1), ([], - 1), ([], - 1), (''c'', 2), (''b'', 1), (''a'', 0), (''a'', 0),
          (''b'', 1), (''c'', 2), (''c'', 2)]"
  by code_simp

text \<open>Claim C6 as stated fails in its last step: after the third \<open>NextInHistory()\<close>
  the history cursor is 2, not -1.\<close>

theorem history_sentinel_counterexample:
  "map_sum id historyIndex
     (run_ops [OpAddToHistory ''a'', OpAddToHistory ''b'', OpAddToHistory ''c'',
               OpPrevInHistory, OpPrevInHistory, OpPrevInHistory, OpPrevInHistory,
               OpNextInHistory, OpNextInHistory, OpNextInHistory] (newLineBuf 1024)) = Inr 2
   \<and> (2 :: int) \<noteq> - 1"
  by code_simp

text \<open>
  Claim C8. In a buffer with \<open>0 \<le> cursor \<le> length \<le> capacity\<close>, as every buffer is
  after a closing bracket has been inserted, \<open>highlightMatch\<close> returns and the buffer
  after the call is the buffer before it: cursor, length, content and all. What it
  writes is either the error signal alone, or two redraws, the first with the cursor
  on an opener before the closer; and it is the error signal alone exactly when no
  matching opener exists.
\<close>

theorem highlightMatch_restores_buffer:
  assumes "lb_inv lb"
  shows "\<exists>out. highlightMatch lb p chOpen chClose = Inr (lb, out)
     \<and> (out = [BEEP]
        \<or> (\<exists>j o1 o2. 0 \<le> j \<and> j < cursor lb - 1 \<and> at (buf lb) j = Inr chOpen
             \<and> drawline p (lb\<lparr>cursor := j\<rparr>) 0 = Inr o1 \<and> drawline p lb 0 = Inr o2
             \<and> out = o1 @ o2))
     \<and> ((out = [BEEP]) = (\<not> spec_matching_opener_exists lb chOpen chClose))"
proof -
  have b: "0 \<le> length_lb lb" "length_lb lb \<le> int (length (buf lb))"
    "cursor lb - 1 \<le> int (length (buf lb))"
    using assms by (simp_all add: lb_inv_def)
  from highlightLoop_restores [OF b, of p chOpen chClose 1] obtain out where
    r: "highlightLoop lb p chOpen chClose (cursor lb - 1) 1 = Inr (lb, out)"
    and d: "out = [BEEP]
        \<or> (\<exists>j o1 o2. 0 \<le> j \<and> j < cursor lb - 1 \<and> at (buf lb) j = Inr chOpen
             \<and> drawline p (lb\<lparr>cursor := j\<rparr>) 0 = Inr o1 \<and> drawline p lb 0 = Inr o2
             \<and> out = o1 @ o2)"
    by blast
  have "(out = [BEEP]) = (\<not> spec_matching_opener_exists lb chOpen chClose)"
  proof (cases "cursor lb - 1 < 0")
    case True
    then have "highlightLoop lb p chOpen chClose (cursor lb - 1) 1 = Inr (lb, [BEEP])"
      by (subst highlightLoop.simps) simp
    then show ?thesis using r True by (simp add: spec_matching_opener_exists_def)
  next
    case False
    define n where "n = nat (cursor lb - 1)"
    have n: "cursor lb - 1 = int n" "n \<le> length (buf lb)" using False b by (simp_all add: n_def)
    from highlightLoop_beep_iff [OF b(1,2) n(2), of 1 p chOpen chClose] r
    have "(out = [BEEP]) =
       (\<forall>j<n. int (opens (buf lb) chOpen j n) \<noteq> 1 + int (closes (buf lb) chOpen chClose j n))"
      unfolding n(1) by simp
    also have "\<dots> = (\<not> spec_matching_opener_exists lb chOpen chClose)"
      unfolding spec_matching_opener_exists_def Let_def n_def [symmetric]
    proof -
      have eq: "(int a \<noteq> 1 + int c) = (a \<noteq> 1 + c)" for a c :: nat by linarith
      show "(\<forall>j<n. int (opens (buf lb) chOpen j n) \<noteq> 1 + int (closes (buf lb) chOpen chClose j n))
          = (\<not> list_ex (\<lambda>j. opens (buf lb) chOpen j n = 1 + closes (buf lb) chOpen chClose j n) [0..<n])"
        unfolding eq list_ex_iff by auto
    qed
    finally show ?thesis .
  qed
  then show ?thesis unfolding highlightMatch_def using r d by blast
qed

theorem highlightMatch_restores_buffer_witness:
  "lb_inv \<lparr>length_lb = 3, cursor = 3, buf = ''())'' @ replicate 1 (CHR 0x00), yanked = [],
           yanking = False, history = None, historyIndex = - 1\<rparr>
   \<and> \<not> spec_matching_opener_exists
        \<lparr>length_lb = 3, cursor = 3, buf = ''())'' @ replicate 1 (CHR 0x00), yanked = [],
         yanking = False, history = None, historyIndex = - 1\<rparr> OPEN_PAREN CLOSE_PAREN
   \<and> highlightMatch
        \<lparr>length_lb = 3, cursor = 3, buf = ''())'' @ replicate 1 (CHR 0x00), yanked = [],
         yanking = False, history = None, historyIndex = - 1\<rparr> ''> '' OPEN_PAREN CLOSE_PAREN
      = Inr (\<lparr>length_lb = 3, cursor = 3, buf = ''())'' @ replicate 1 (CHR 0x00), yanked = [],
              yanking = False, history = None, historyIndex = - 1\<rparr>, [BEEP])"
proof -
  let ?lb = "\<lparr>length_lb = 3, cursor = 3, buf = ''())'' @ replicate 1 (CHR 0x00), yanked = [],
           yanking = False, history = None, historyIndex = - 1\<rparr>"
  have h: "lb_inv ?lb" by (simp add: lb_inv_def)
  have n: "\<not> spec_matching_opener_exists ?lb OPEN_PAREN CLOSE_PAREN"
    by (simp add: spec_matching_opener_exists_def opens_def closes_def OPEN_PAREN_def
        CLOSE_PAREN_def upt_conv_Cons)
  from highlightMatch_restores_buffer [OF h, of "''> ''" OPEN_PAREN CLOSE_PAREN] n
  have "highlightMatch ?lb ''> '' OPEN_PAREN CLOSE_PAREN = Inr (?lb, [BEEP])" by auto
  with h n show ?thesis by blast
qed

text \<open>The other case, on \<open>(a)\<close>: the opener at 0 matches, and the two redraws are
  written, the first with the cursor on the opener.\<close>

lemma highlightMatch_found_example:
  "highlightMatch
     \<lparr>length_lb = 3, cursor = 3, buf = ''(a)'' @ replicate 1 (CHR 0x00), yanked = [],
      yanking = False, history = None, historyIndex = - 1\<rparr> ''> '' OPEN_PAREN CLOSE_PAREN
   = Inr (\<lparr>length_lb = 3, cursor = 3, buf = ''(a)'' @ replicate 1 (CHR 0x00), yanked = [],
           yanking = False, history = None, historyIndex = - 1\<rparr>,
          [CHR 0x0D] @ ''> (a)'' @ cursorBackward @ cursorBackward @ cursorBackward
          @ [CHR 0x0D] @ ''> (a)'')"
  by code_simp

section \<open>The claims about the loop\<close>

text \<open>
  Claim C7 on the code. When the first read fails with the error \<open>e\<close>, \<open>repl\<close> calls
  \<open>Stop\<close> with the history and returns \<open>e\<close>; \<open>REPL\<close>, which calls \<open>repl\<close> as a
  statement and then returns nil, returns nil. The same holds for a read that fails
  later (lemmas \<open>loop_append_read_error\<close> and \<open>REPL_returns_nil\<close>).
\<close>

theorem REPL_drops_read_error:
  "repl h hs0 (ReadError e # rest) = Returned (Some e) (callStop h (startSession h hs0))
   \<and> REPL h None hs0 (ReadError e # rest) = Inr (Returned None (callStop h (startSession h hs0)))
   \<and> s_calls (callStop h (startSession h hs0))
       = [CallStart, CallPrompt, CallStop (history (s_buf (startSession h hs0)))]"
  by (simp add: REPL_def repl_def callStop_def startSession_def Let_def split: prod.splits)

text \<open>
  Claim C10. Pressing Return in the normal state, with a buffer whose length lies
  within its storage: the text of the buffer is appended to the history, the history
  cursor is -1 and the buffer is cleared; \<open>Eval\<close> is the next call to the handler, with
  that text; and the bytes written are a newline, only if the buffer was not empty,
  followed by what is printed after the evaluation. For an empty buffer the text is
  the empty string: it is appended to the history and evaluated all the same, and no
  newline is echoed.
\<close>

theorem return_key_on_empty_buffer:
  assumes "0 \<le> length_lb (s_buf s)" "length_lb (s_buf s) \<le> int (length (buf (s_buf s)))"
  shows "(IsEmpty (s_buf s) \<longrightarrow> content (s_buf s) = [])
     \<and> (\<exists>s'. normalKey h s RETURN = Inr (Continue s')
     \<and> history (s_buf s')
         = Some ((case history (s_buf s) of None \<Rightarrow> [] | Some hist \<Rightarrow> hist) @ [content (s_buf s)])
     \<and> historyIndex (s_buf s') = - 1
     \<and> length_lb (s_buf s') = 0 \<and> cursor (s_buf s') = 0
     \<and> (case Eval h (s_handler s) (content (s_buf s)) of
          ((result, more', err), hs) \<Rightarrow>
            s_calls s' = s_calls s @ CallEval (content (s_buf s))
                           # (if err = None \<and> more' then [] else [CallPrompt])
          \<and> s_out s' = s_out s @ (if IsEmpty (s_buf s) then [] else [NEWLINE])
                @ (case err of
                     Some e \<Rightarrow> ''*** '' @ Error e @ [NEWLINE] @ fst (Prompt h hs)
                   | None \<Rightarrow> if more' then [] else result @ [NEWLINE] @ fst (Prompt h hs))))"
proof
  show "IsEmpty (s_buf s) \<longrightarrow> content (s_buf s) = []"
    by (simp add: IsEmpty_def content_def)
  show "\<exists>s'. normalKey h s RETURN = Inr (Continue s')
     \<and> history (s_buf s')
         = Some ((case history (s_buf s) of None \<Rightarrow> [] | Some hist \<Rightarrow> hist) @ [content (s_buf s)])
     \<and> historyIndex (s_buf s') = - 1
     \<and> length_lb (s_buf s') = 0 \<and> cursor (s_buf s') = 0
     \<and> (case Eval h (s_handler s) (content (s_buf s)) of
          ((result, more', err), hs) \<Rightarrow>
            s_calls s' = s_calls s @ CallEval (content (s_buf s))
                           # (if err = None \<and> more' then [] else [CallPrompt])
          \<and> s_out s' = s_out s @ (if IsEmpty (s_buf s) then [] else [NEWLINE])
                @ (case err of
                     Some e \<Rightarrow> ''*** '' @ Error e @ [NEWLINE] @ fst (Prompt h hs)
                   | None \<Rightarrow> if more' then [] else result @ [NEWLINE] @ fst (Prompt h hs)))"
    unfolding RETURN_dispatch using assms by (rule returnKey_effect)
qed


theorem return_key_on_empty_buffer_witness:
  "IsEmpty (s_buf (startSession
       \<lparr>Eval = \<lambda>hs line. ((''ok'', False, None), hs), Complete = \<lambda>hs expr. (([], None), hs),
        Reset = \<lambda>hs. hs, Prompt = \<lambda>hs. (''> '', hs), Start = \<lambda>hs. (None, hs),
        Stop = \<lambda>hs hist. hs\<rparr> (0 :: nat)))
   \<and> (\<exists>s'. normalKey
         \<lparr>Eval = \<lambda>hs line. ((''ok'', False, None), hs), Complete = \<lambda>hs expr. (([], None), hs),
          Reset = \<lambda>hs. hs, Prompt = \<lambda>hs. (''> '', hs), Start = \<lambda>hs. (None, hs),
          Stop = \<lambda>hs hist. hs\<rparr>
         (startSession
           \<lparr>Eval = \<lambda>hs line. ((''ok'', False, None), hs), Complete = \<lambda>hs expr. (([], None), hs),
            Reset = \<lambda>hs. hs, Prompt = \<lambda>hs. (''> '', hs), Start = \<lambda>hs. (None, hs),
            Stop = \<lambda>hs hist. hs\<rparr> (0 :: nat)) RETURN = Inr (Continue s')
       \<and> history (s_buf s') = Some [[]] \<and> historyIndex (s_buf s') = - 1
       \<and> s_calls s' = [CallStart, CallPrompt, CallEval [], CallPrompt]
       \<and> s_out s' = ''> '' @ ''ok'' @ [NEWLINE] @ ''> '')"
proof -
  let ?H = "\<lparr>Eval = \<lambda>hs line. ((''ok'', False, None), hs), Complete = \<lambda>hs expr. (([], None), hs),
        Reset = \<lambda>hs. hs, Prompt = \<lambda>hs. (''> '', hs), Start = \<lambda>hs. (None, hs),
        Stop = \<lambda>hs hist. hs\<rparr> :: nat ReplHandler"
  let ?S = "startSession ?H 0"
  have s: "?S = \<lparr>s_buf = newLineBuf 1024, s_prompt = ''> '', s_meta = False, s_lastChar = CHR 0x00,
          s_options = None, s_handler = 0, s_out = ''> '', s_calls = [CallStart, CallPrompt]\<rparr>"
    by (simp add: startSession_def)
  have e: "IsEmpty (s_buf ?S)" unfolding s by (simp add: IsEmpty_def newLineBuf_def)
  have a: "0 \<le> length_lb (s_buf ?S)" "length_lb (s_buf ?S) \<le> int (length (buf (s_buf ?S)))"
    unfolding s by (simp_all add: newLineBuf_def)
  have c: "content (s_buf ?S) = []" using e by (simp add: IsEmpty_def content_def)
  from return_key_on_empty_buffer [OF a, of ?H] e
  have "\<exists>s'. normalKey ?H ?S RETURN = Inr (Continue s')
       \<and> history (s_buf s') = Some [[]] \<and> historyIndex (s_buf s') = - 1
       \<and> s_calls s' = [CallStart, CallPrompt, CallEval [], CallPrompt]
       \<and> s_out s' = ''> '' @ ''ok'' @ [NEWLINE] @ ''> ''"
    unfolding c by (simp add: s newLineBuf_def) blast
  with e show ?thesis by blast
qed

end
